theory Spec2Isabelle
  imports Main "HOL-Library.AList" "HOL-Library.Multiset"
begin

section \<open>The token sweep engine of \<^verbatim>\<open>token_sweeper.py\<close>\<close>

text \<open>
  The theory embeds class \<^verbatim>\<open>TokenSweeper\<close> of \<^verbatim>\<open>token_sweeper.py\<close>, the consolidated
  engine: the retry loop of \<^verbatim>\<open>_process_token_id\<close>, the sweep loop with its
  \<^verbatim>\<open>try ... finally\<close>, and the load and save of the checkpoint file.

  What the engine does not own is an input of the model:
  \<^item> the inference server is a function from the token id and the attempt number to the
    response of that request;
  \<^item> the signal handler \<^verbatim>\<open>_handle_exit\<close> is a function telling in which iterations a
    signal is delivered;
  \<^item> the file system holds the checkpoint file and its temporary sibling, and does not
    fail by itself (no full disk, no permission error); \<^verbatim>\<open>os.replace\<close> and
    \<^verbatim>\<open>os.rename\<close> are one step, as POSIX rename is;
  \<^item> console output (\<^verbatim>\<open>print\<close>) is not recorded. The statistics report of the loop
    body runs outside every handler, so it may raise. The prints inside
    \<^verbatim>\<open>_process_token_id\<close> succeed in the definitions of the first part; the last
    subsection of the definitions lets them raise too, and with a console that works
    the two agree.
\<close>

subsection \<open>Python strings and UTF-8\<close>

text \<open>
  A Python \<^verbatim>\<open>str\<close> is a sequence of Unicode code points. \<^verbatim>\<open>str.encode("utf-8")\<close>
  raises \<^verbatim>\<open>UnicodeEncodeError\<close> on a surrogate (U+D800 to U+DFFF), which
  \<^verbatim>\<open>json.loads\<close> does produce from an escape such as \<^verbatim>\<open>"\ud800"\<close>; the error is
  \<open>None\<close> here.
\<close>

type_synonym pystr = "nat list"

definition encode_char :: "nat \<Rightarrow> nat list option" where
  "encode_char c =
     (if c < 0x80 then Some [c]
      else if c < 0x800 then Some [0xC0 + c div 64, 0x80 + c mod 64]
      else if c < 0x10000 then
        (if 0xD800 \<le> c \<and> c \<le> 0xDFFF then None
         else Some [0xE0 + c div 4096, 0x80 + (c div 64) mod 64, 0x80 + c mod 64])
      else if c < 0x110000 then
        Some [0xF0 + c div 262144, 0x80 + (c div 4096) mod 64,
              0x80 + (c div 64) mod 64, 0x80 + c mod 64]
      else None)"

fun encode_utf8 :: "pystr \<Rightarrow> nat list option" where
  "encode_utf8 [] = Some []"
| "encode_utf8 (c # cs) =
     (case encode_char c of
        None \<Rightarrow> None
      | Some bs \<Rightarrow> (case encode_utf8 cs of None \<Rightarrow> None | Some rest \<Rightarrow> Some (bs @ rest)))"

text \<open>The code points of an ASCII literal, to write texts as \<open>text_of ''bc''\<close>.\<close>

definition text_of :: "string \<Rightarrow> pystr" where
  "text_of s = map of_char s"

subsection \<open>The token index\<close>

text \<open>
  \<^verbatim>\<open>self.token_index\<close> is a \<^verbatim>\<open>dict\<close> from the key \<^verbatim>\<open>str(token_id)\<close> to
  \<^verbatim>\<open>{"character": token, "bytes": list(token_bytes)}\<close>. A Python dict keeps its keys in
  insertion order, and an assignment to a key already there keeps the key's place: this
  is the association list with \<open>AList.update\<close>. Keys are strings over 8-bit code
  points.
\<close>

record token_record =
  character :: pystr
  bytes :: "nat list"

type_synonym token_index = "(string \<times> token_record) list"

definition has_key :: "token_index \<Rightarrow> string \<Rightarrow> bool" where
  "has_key idx k = (k \<in> set (map fst idx))"

subsection \<open>Decimal strings: \<^verbatim>\<open>str(token_id)\<close> and \<^verbatim>\<open>int(k)\<close>\<close>

definition digit_char :: "nat \<Rightarrow> char" where
  "digit_char d = char_of (48 + d)"

fun digits :: "nat \<Rightarrow> string" where
  "digits n = (if n < 10 then [digit_char n] else digits (n div 10) @ [digit_char (n mod 10)])"

declare digits.simps [simp del]

definition str_of_int :: "int \<Rightarrow> string" where
  "str_of_int i = (if i < 0 then CHR ''-'' # digits (nat (- i)) else digits (nat i))"

text \<open>
  \<^verbatim>\<open>int(k)\<close> on a string: surrounding whitespace is dropped, one sign is allowed, then
  come decimal digits, where single underscores may stand between two digits. Anything
  else raises \<^verbatim>\<open>ValueError\<close> (\<open>None\<close>). The limit on the number of digits
  (\<^verbatim>\<open>sys.set_int_max_str_digits\<close>, 4300 by default) is left out.
\<close>

definition is_space :: "char \<Rightarrow> bool" where
  "is_space c = ((of_char c :: nat) \<in> {9, 10, 11, 12, 13, 28, 29, 30, 31, 32, 133, 160})"

definition strip :: "string \<Rightarrow> string" where
  "strip s = rev (dropWhile is_space (rev (dropWhile is_space s)))"

definition digit_val :: "char \<Rightarrow> nat option" where
  "digit_val c =
     (let v = (of_char c :: nat) in if 48 \<le> v \<and> v \<le> 57 then Some (v - 48) else None)"

fun read_digits :: "nat \<Rightarrow> string \<Rightarrow> nat option" where
  "read_digits acc [] = Some acc"
| "read_digits acc [c] =
     (case digit_val c of None \<Rightarrow> None | Some d \<Rightarrow> Some (10 * acc + d))"
| "read_digits acc (c # c' # cs) =
     (if c = CHR ''_'' then
        (case digit_val c' of None \<Rightarrow> None | Some d \<Rightarrow> read_digits (10 * acc + d) cs)
      else
        (case digit_val c of None \<Rightarrow> None | Some d \<Rightarrow> read_digits (10 * acc + d) (c' # cs)))"

definition py_nat :: "string \<Rightarrow> nat option" where
  "py_nat s =
     (case s of
        [] \<Rightarrow> None
      | c # cs \<Rightarrow> (case digit_val c of None \<Rightarrow> None | Some d \<Rightarrow> read_digits d cs))"

definition py_int :: "string \<Rightarrow> int option" where
  "py_int s =
     (case strip s of
        [] \<Rightarrow> None
      | c # cs \<Rightarrow>
          if c = CHR ''-'' then map_option (\<lambda>n. - int n) (py_nat cs)
          else if c = CHR ''+'' then map_option int (py_nat cs)
          else map_option int (py_nat (c # cs)))"

subsection \<open>The inference server\<close>

text \<open>
  One line of the streamed response, by what lines 120 to 148 do with it:
  \<^item> \<open>Blank\<close>: the chunk is empty (\<^verbatim>\<open>if not chunk: continue\<close>);
  \<^item> \<open>Done_marker\<close>: the stripped line, without its \<^verbatim>\<open>data: \<close> prefix, is \<^verbatim>\<open>[DONE]\<close>;
  \<^item> \<open>Bad_json\<close>: \<^verbatim>\<open>json.loads\<close> raises \<^verbatim>\<open>JSONDecodeError\<close>, which the inner handler
    turns into \<^verbatim>\<open>continue\<close>;
  \<^item> \<open>Raising\<close>: handling the line raises anything else (the bytes are not UTF-8, the
    object has no \<^verbatim>\<open>["choices"][0]["text"]\<close>, the text is not a string), or the
    connection breaks while the line is read;
  \<^item> \<open>Fragment t\<close>: \<^verbatim>\<open>chunk_data["choices"][0]["text"]\<close> is the string \<open>t\<close>.
\<close>

datatype chunk = Blank | Done_marker | Bad_json | Raising | Fragment pystr

text \<open>
  \<open>Transport_error\<close>: \<^verbatim>\<open>requests.post\<close> raises (timeout, refused connection).
  \<open>Http status lines\<close>: a response with that status code and these lines.
\<close>

datatype response = Transport_error | Http nat "chunk list"

text \<open>
  What the \<^verbatim>\<open>for chunk in response.iter_lines()\<close> loop ends with: the first fragment
  and its bytes (the loop is left by \<^verbatim>\<open>return True\<close>), an exception, or the end of the
  stream.
\<close>

datatype stream_result = Found pystr "nat list" | Raised_in_stream | Exhausted

fun read_stream :: "chunk list \<Rightarrow> stream_result" where
  "read_stream [] = Exhausted"
| "read_stream (Blank # cs) = read_stream cs"
| "read_stream (Done_marker # cs) = read_stream cs"
| "read_stream (Bad_json # cs) = read_stream cs"
| "read_stream (Raising # cs) = Raised_in_stream"
| "read_stream (Fragment t # cs) =
     (case encode_utf8 t of None \<Rightarrow> Raised_in_stream | Some bs \<Rightarrow> Found t bs)"

subsection \<open>The state of a run\<close>

text \<open>
  \<open>Document d\<close> is a file holding all of what \<^verbatim>\<open>json.dump\<close> writes for the dict \<open>d\<close>,
  \<open>Partial d\<close> a file holding a proper prefix of it (the file was opened for writing
  and the dump did not finish), \<open>Garbage t\<close> a file holding some other text that is not
  JSON. \<^verbatim>\<open>json.load\<close> returns the dict of a \<open>Document\<close> and raises on the other two.
\<close>

datatype file_content = Document token_index | Partial token_index | Garbage string

definition json_load :: "file_content \<Rightarrow> token_index option" where
  "json_load c = (case c of Document d \<Rightarrow> Some d | Partial d \<Rightarrow> None | Garbage t \<Rightarrow> None)"

text \<open>
  The two paths the engine touches: \<^verbatim>\<open>self.output_file\<close> and
  \<^verbatim>\<open>f"{self.output_file}.tmp"\<close>; \<open>None\<close> is a path that does not exist.
\<close>

record files =
  output_file :: "file_content option"
  temp_file :: "file_content option"

record stats =
  total_processed :: nat
  successful :: nat
  failed :: nat
  skipped :: nat

text \<open>
  The trace is not a field of the class: it records, in order, each request sent
  (token id and attempt number), each \<^verbatim>\<open>time.sleep\<close>, each assignment into
  \<^verbatim>\<open>self.token_index\<close> and each call of \<^verbatim>\<open>_save_mappings\<close> with its outcome, so that
  claims about what a run does, or never does, can be stated.
\<close>

datatype event =
    Request int nat
  | Sleep nat
  | Stored string
  | Save_ok token_index
  | Save_failed

record state =
  save_interval :: nat
  token_counter :: nat
  should_exit :: bool
  token_index :: token_index
  stats :: stats
  files :: files
  trace :: "event list"

record env =
  server :: "int \<Rightarrow> nat \<Rightarrow> response"
  signal :: "int \<Rightarrow> bool"
  stats_report_fails :: "int \<Rightarrow> bool"

text \<open>
  \<open>server env tid a\<close> is the response to the request that attempt \<open>a\<close> sends for token
  \<open>tid\<close>. \<open>signal env tid\<close>: SIGINT or SIGTERM arrives during the iteration for \<open>tid\<close>,
  after the test of line 68; \<^verbatim>\<open>_handle_exit\<close> sets the flag, which the next iteration
  reads. \<open>stats_report_fails env tid\<close>: the \<^verbatim>\<open>_print_stats()\<close> of line 90, if it runs in
  the iteration for \<open>tid\<close>, raises.
\<close>

definition SAVE_INTERVAL :: nat where "SAVE_INTERVAL = 100"
definition RETRY_ATTEMPTS :: nat where "RETRY_ATTEMPTS = 3"
definition RETRY_DELAY :: nat where "RETRY_DELAY = 2"

definition log_event :: "event \<Rightarrow> state \<Rightarrow> state" where
  "log_event e s = s\<lparr>trace := trace s @ [e]\<rparr>"

subsection \<open>\<^verbatim>\<open>_process_token_id\<close> (lines 100 to 164)\<close>

text \<open>
  One pass of the body of \<^verbatim>\<open>for attempt in range(RETRY_ATTEMPTS)\<close>, up to the
  \<^verbatim>\<open>time.sleep\<close>: either the function returns, or control falls through to the sleep.
  A status 200 whose stream ends without a fragment falls through on every attempt, the
  last included; an exception or another status returns \<open>False\<close> on the last attempt.
\<close>

datatype attempt_end = Returned bool state | Fell_through state

definition attempt :: "env \<Rightarrow> int \<Rightarrow> nat \<Rightarrow> state \<Rightarrow> attempt_end" where
  "attempt env token_id a s =
     (let s1 = log_event (Request token_id a) s;
          failed_attempt = (if a = RETRY_ATTEMPTS - 1 then Returned False s1 else Fell_through s1)
      in case server env token_id a of
           Transport_error \<Rightarrow> failed_attempt
         | Http status lines \<Rightarrow>
             if status = 200 then
               (case read_stream lines of
                  Found token token_bytes \<Rightarrow>
                    Returned True
                      (log_event (Stored (str_of_int token_id))
                        (s1\<lparr>token_index :=
                              AList.update (str_of_int token_id)
                                \<lparr>character = token, bytes = token_bytes\<rparr> (token_index s1)\<rparr>))
                | Raised_in_stream \<Rightarrow> failed_attempt
                | Exhausted \<Rightarrow> Fell_through s1)
             else failed_attempt)"

fun attempts :: "env \<Rightarrow> int \<Rightarrow> nat list \<Rightarrow> state \<Rightarrow> bool \<times> state" where
  "attempts env token_id [] s = (False, s)"
| "attempts env token_id (a # as) s =
     (case attempt env token_id a s of
        Returned ok s' \<Rightarrow> (ok, s')
      | Fell_through s' \<Rightarrow> attempts env token_id as (log_event (Sleep RETRY_DELAY) s'))"

definition process_token_id :: "env \<Rightarrow> int \<Rightarrow> state \<Rightarrow> bool \<times> state" where
  "process_token_id env token_id s = attempts env token_id [0..<RETRY_ATTEMPTS] s"

subsection \<open>\<^verbatim>\<open>_load_existing_mappings\<close> and \<^verbatim>\<open>__init__\<close>\<close>

definition load_existing_mappings :: "files \<Rightarrow> token_index" where
  "load_existing_mappings fs =
     (case output_file fs of
        None \<Rightarrow> []
      | Some c \<Rightarrow> (case json_load c of Some d \<Rightarrow> d | None \<Rightarrow> []))"

definition init_sweeper :: "files \<Rightarrow> state" where
  "init_sweeper fs =
     \<lparr>save_interval = SAVE_INTERVAL, token_counter = 0, should_exit = False,
      token_index = load_existing_mappings fs,
      stats = \<lparr>total_processed = 0, successful = 0, failed = 0, skipped = 0\<rparr>,
      files = fs, trace = []\<rparr>"

subsection \<open>\<^verbatim>\<open>_save_mappings\<close> (lines 178 to 200)\<close>

text \<open>
  Line 185 sorts the keys with \<^verbatim>\<open>key=int\<close> and rebuilds the dict in that order. Python's
  sort is stable, as \<open>sort_key\<close> is, and \<^verbatim>\<open>int\<close> raises on a key that is not a number,
  which ends the save in its handler before any file is opened. The keys of a dict are
  distinct, so sorting the keys and looking each up is sorting the items.
\<close>

definition sorted_token_index :: "token_index \<Rightarrow> token_index option" where
  "sorted_token_index idx =
     (if \<forall>k \<in> set (map fst idx). py_int k \<noteq> None
      then Some (sort_key (\<lambda>item. the (py_int (fst item))) idx)
      else None)"

text \<open>
  The file is opened with \<^verbatim>\<open>encoding="utf-8"\<close> and written with
  \<^verbatim>\<open>ensure_ascii=False\<close>: a text with a surrogate, which only a loaded record can have,
  makes the write raise.
\<close>

definition writable :: "token_index \<Rightarrow> bool" where
  "writable d = (\<forall>item \<in> set d. encode_utf8 (character (snd item)) \<noteq> None)"

definition save_result :: "token_index \<Rightarrow> token_index option" where
  "save_result idx =
     (case sorted_token_index idx of
        None \<Rightarrow> None
      | Some d \<Rightarrow> if writable d then Some d else None)"

text \<open>
  The states the two files go through during one call, in order: before the call, the
  temporary file opened and being written, the temporary file complete and closed, the
  temporary file renamed over the checkpoint. A process killed during the call leaves
  the files in one of these states; the last one is the state when the call returns.
\<close>

definition save_steps :: "files \<Rightarrow> token_index \<Rightarrow> files list" where
  "save_steps fs idx =
     (case sorted_token_index idx of
        None \<Rightarrow> [fs]
      | Some d \<Rightarrow>
          if writable d then
            [fs,
             fs\<lparr>temp_file := Some (Partial d)\<rparr>,
             fs\<lparr>temp_file := Some (Document d)\<rparr>,
             fs\<lparr>temp_file := None, output_file := Some (Document d)\<rparr>]
          else [fs, fs\<lparr>temp_file := Some (Partial d)\<rparr>])"

definition save_mappings :: "state \<Rightarrow> state" where
  "save_mappings s =
     log_event (case save_result (token_index s) of Some d \<Rightarrow> Save_ok d | None \<Rightarrow> Save_failed)
       (s\<lparr>files := last (save_steps (files s) (token_index s))\<rparr>)"

subsection \<open>\<^verbatim>\<open>sweep_token_ids\<close> (lines 59 to 98)\<close>

definition deliver :: "env \<Rightarrow> int \<Rightarrow> state \<Rightarrow> state" where
  "deliver env token_id s = (if signal env token_id then s\<lparr>should_exit := True\<rparr> else s)"

definition count_skipped :: "state \<Rightarrow> state" where
  "count_skipped s = s\<lparr>stats := (stats s)\<lparr>skipped := skipped (stats s) + 1\<rparr>\<rparr>"

text \<open>Lines 79 to 84.\<close>

definition count_result :: "bool \<Rightarrow> state \<Rightarrow> state" where
  "count_result success s =
     (let st = stats s;
          st1 = (if success then st\<lparr>successful := successful st + 1\<rparr>
                 else st\<lparr>failed := failed st + 1\<rparr>)
      in s\<lparr>stats := st1\<lparr>total_processed := total_processed st1 + 1\<rparr>\<rparr>)"

text \<open>
  Lines 87 to 91. The result is \<open>True\<close> when \<^verbatim>\<open>_print_stats()\<close> raises: the counter is
  then not reset, and the exception leaves the loop.
\<close>

definition save_at_interval :: "env \<Rightarrow> int \<Rightarrow> state \<Rightarrow> bool \<times> state" where
  "save_at_interval env token_id s =
     (let s1 = s\<lparr>token_counter := token_counter s + 1\<rparr>
      in if token_counter s1 \<ge> save_interval s1 then
           (let s2 = save_mappings s1
            in if stats_report_fails env token_id then (True, s2)
               else (False, s2\<lparr>token_counter := 0\<rparr>))
         else (False, s1))"

definition process_and_count :: "env \<Rightarrow> int \<Rightarrow> state \<Rightarrow> bool \<times> state" where
  "process_and_count env token_id s =
     (case process_token_id env token_id s of
        (success, s1) \<Rightarrow> save_at_interval env token_id (count_result success s1))"

datatype loop_exit = Completed | Cancelled | Raised

fun sweep_loop :: "env \<Rightarrow> int list \<Rightarrow> state \<Rightarrow> loop_exit \<times> state" where
  "sweep_loop env [] s = (Completed, s)"
| "sweep_loop env (token_id # rest) s =
     (if should_exit s then (Cancelled, s)
      else if has_key (token_index s) (str_of_int token_id) then
        sweep_loop env rest (deliver env token_id (count_skipped s))
      else
        (case process_and_count env token_id s of
           (True, s1) \<Rightarrow> (Raised, s1)
         | (False, s1) \<Rightarrow> sweep_loop env rest (deliver env token_id s1)))"

text \<open>The \<^verbatim>\<open>finally\<close> block, lines 93 to 98.\<close>

definition final_save :: "state \<Rightarrow> state" where
  "final_save s = (if token_counter s > 0 then save_mappings s else s)"

definition sweep_token_ids :: "env \<Rightarrow> int \<Rightarrow> int \<Rightarrow> state \<Rightarrow> loop_exit \<times> state" where
  "sweep_token_ids env start_id end_id s =
     (case sweep_loop env [start_id..end_id] s of (ex, s1) \<Rightarrow> (ex, final_save s1))"

subsection \<open>Notions the properties are stated with\<close>

text \<open>
  An attempt with this response fails: the request raises, the status is not 200, or
  the stream yields no fragment (it ends without one, or raises first).
\<close>

definition failing :: "response \<Rightarrow> bool" where
  "failing r =
     (case r of
        Transport_error \<Rightarrow> True
      | Http status lines \<Rightarrow>
          status \<noteq> 200 \<or> (case read_stream lines of Found t bs \<Rightarrow> False | _ \<Rightarrow> True))"

text \<open>A status 200 whose stream ends without a fragment and without an exception.\<close>

definition silent :: "response \<Rightarrow> bool" where
  "silent r =
     (case r of
        Transport_error \<Rightarrow> False
      | Http status lines \<Rightarrow> status = 200 \<and> read_stream lines = Exhausted)"

text \<open>The lines of a stream up to its first fragment, and a response cut there.\<close>

fun cut_stream :: "chunk list \<Rightarrow> chunk list" where
  "cut_stream [] = []"
| "cut_stream (Fragment t # cs) = [Fragment t]"
| "cut_stream (c # cs) = c # cut_stream cs"

definition cut_response :: "response \<Rightarrow> response" where
  "cut_response r =
     (case r of Transport_error \<Rightarrow> Transport_error | Http status lines \<Rightarrow> Http status (cut_stream lines))"

definition cut_server :: "env \<Rightarrow> env" where
  "cut_server env = env\<lparr>server := \<lambda>token_id a. cut_response (server env token_id a)\<rparr>"

definition is_fragment :: "chunk \<Rightarrow> bool" where
  "is_fragment c = (case c of Fragment t \<Rightarrow> True | _ \<Rightarrow> False)"

subsection \<open>A concrete run\<close>

text \<open>
  A server that answers \<open>a\<close> for token 10, times out for token 11, answers the empty
  text and then a second fragment for token 13 and, for any other token, sends an empty
  line, a line that is not JSON, the fragment \<open>bc\<close> and a second fragment; no signal
  arrives and the console works.
\<close>

definition example_env :: env where
  "example_env =
     \<lparr>server = (\<lambda>token_id a.
         if token_id = 10 then Http 200 [Fragment (text_of ''a'')]
         else if token_id = 11 then Transport_error
         else if token_id = 13 then Http 200 [Done_marker, Fragment [], Fragment (text_of ''zz'')]
         else Http 200 [Blank, Bad_json, Fragment (text_of ''bc''), Fragment (text_of ''zz'')]),
      signal = (\<lambda>token_id. False),
      stats_report_fails = (\<lambda>token_id. False)\<rparr>"

definition no_files :: files where
  "no_files = \<lparr>output_file = None, temp_file = None\<rparr>"

text \<open>A checkpoint file that does not parse, and the state with one record to save.\<close>

definition corrupt_files :: files where
  "corrupt_files = \<lparr>output_file = Some (Garbage ''{ 10: oops''), temp_file = None\<rparr>"

definition one_record :: state where
  "one_record =
     (init_sweeper no_files)
       \<lparr>token_index := [(''10'', \<lparr>character = text_of ''a'', bytes = [97]\<rparr>)],
        token_counter := 1\<rparr>"

subsection \<open>Notions for whole runs\<close>

text \<open>The events of the attempts for one id: its requests and the sleeps between them.\<close>

definition is_attempt_event :: "int \<Rightarrow> event \<Rightarrow> bool" where
  "is_attempt_event token_id e =
     (case e of Request i a \<Rightarrow> i = token_id | Sleep n \<Rightarrow> True | _ \<Rightarrow> False)"

text \<open>The record holds the UTF-8 bytes of its text.\<close>

definition byte_consistent :: "token_record \<Rightarrow> bool" where
  "byte_consistent r = (encode_utf8 (character r) = Some (bytes r))"


text \<open>A string of decimal digits only.\<close>

definition all_digits :: "string \<Rightarrow> bool" where
  "all_digits cs = (\<forall>c \<in> set cs. digit_val c \<noteq> None)"

text \<open>
  The keys of an index as the engine writes them: pairwise distinct, and each the
  \<^verbatim>\<open>str\<close> of the integer it reads as. The key \<^verbatim>\<open>"07"\<close> is not of that form.
\<close>

definition canonical_keys :: "token_index \<Rightarrow> bool" where
  "canonical_keys idx =
     (distinct (map fst idx) \<and>
      (\<forall>k \<in> set (map fst idx). case py_int k of Some i \<Rightarrow> str_of_int i = k | None \<Rightarrow> False))"

text \<open>The first item's key is the smaller integer; a key that is no integer is not compared.\<close>

definition key_less :: "string \<times> token_record \<Rightarrow> string \<times> token_record \<Rightarrow> bool" where
  "key_less x y =
     (case py_int (fst x) of
        None \<Rightarrow> False
      | Some i \<Rightarrow> (case py_int (fst y) of None \<Rightarrow> False | Some j \<Rightarrow> i < j))"

definition ascending :: "token_index \<Rightarrow> bool" where
  "ascending d = sorted_wrt key_less d"

text \<open>
  A checkpoint that holds tokens 12 and 9, in that order, as a dict filled by a run over
  12 and a later run over 9 is before its first save.
\<close>

definition unsorted_files :: files where
  "unsorted_files =
     \<lparr>output_file = Some (Document [(''12'', \<lparr>character = text_of ''bc'', bytes = [98, 99]\<rparr>),
                                     (''9'', \<lparr>character = text_of ''bc'', bytes = [98, 99]\<rparr>)]),
      temp_file = None\<rparr>"

text \<open>The event a call of \<^verbatim>\<open>_save_mappings\<close> on this index leaves in the trace.\<close>

definition save_event :: "token_index \<Rightarrow> event" where
  "save_event idx = (case save_result idx of Some d \<Rightarrow> Save_ok d | None \<Rightarrow> Save_failed)"

text \<open>
  The records stored since the last call of \<^verbatim>\<open>_save_mappings\<close>: the number of stores
  after the last save event of the trace.
\<close>

definition is_save :: "event \<Rightarrow> bool" where
  "is_save e = (case e of Save_ok d \<Rightarrow> True | Save_failed \<Rightarrow> True | _ \<Rightarrow> False)"

definition is_stored :: "event \<Rightarrow> bool" where
  "is_stored e = (case e of Stored k \<Rightarrow> True | _ \<Rightarrow> False)"

definition unsaved :: "event list \<Rightarrow> nat" where
  "unsaved tr = length (filter is_stored (takeWhile (\<lambda>e. \<not> is_save e) (rev tr)))"

text \<open>Saving this index succeeds: every key reads as an integer and every text encodes.\<close>

definition savable :: "token_index \<Rightarrow> bool" where
  "savable idx = (save_result idx \<noteq> None)"

text \<open>The checkpoint file holds the records of the index in memory, all and only.\<close>

definition persisted :: "state \<Rightarrow> bool" where
  "persisted s = (mset (load_existing_mappings (files s)) = mset (token_index s))"

text \<open>The example server with a signal arriving while token 12 is processed.\<close>

definition cancel_env :: env where
  "cancel_env = example_env\<lparr>signal := \<lambda>token_id. token_id = 12\<rparr>"

text \<open>
  The invariant of the loop behind the final save: what was stored since the last save
  is counted by \<^verbatim>\<open>token_counter\<close>, every key stored is in the index, and an index that
  can be saved stays so and is on disk unless the counter says otherwise.
\<close>

definition flush_inv :: "state \<Rightarrow> bool" where
  "flush_inv s \<longleftrightarrow>
     (0 < unsaved (trace s) \<longrightarrow> 0 < token_counter s)
   \<and> (\<forall>k. Stored k \<in> set (trace s) \<longrightarrow> has_key (token_index s) k)"

definition disk_inv :: "state \<Rightarrow> bool" where
  "disk_inv s \<longleftrightarrow> savable (token_index s) \<and> (persisted s \<or> 0 < token_counter s)"





text \<open>No request for this id is in the trace.\<close>

definition no_request :: "int \<Rightarrow> event list \<Rightarrow> bool" where
  "no_request token_id tr = (\<forall>e \<in> set tr. case e of Request i a \<Rightarrow> i \<noteq> token_id | _ \<Rightarrow> True)"



subsection \<open>The console\<close>

text \<open>
  The definitions above take every \<^verbatim>\<open>print\<close> inside \<^verbatim>\<open>_process_token_id\<close> to succeed.
  The ones below let it raise, as it does on a broken pipe or a full disk. There are
  four calls: the progress line of attempt 0 (line 106), the discovered token (line
  144, after the store of line 138), the HTTP status of the last attempt (line 152),
  all three inside the \<^verbatim>\<open>try\<close>, and the error line of the last attempt (line 158), in
  the handler, where nothing catches what it raises. \<open>con token_id a site\<close> tells
  whether the call at \<open>site\<close> raises during attempt \<open>a\<close> for the id. The prints of
  \<^verbatim>\<open>_save_mappings\<close>, which run only when a save failed, stay as they were.
\<close>

datatype print_site = Progress | Discovered | Http_error | Handler

type_synonym console = "int \<Rightarrow> nat \<Rightarrow> print_site \<Rightarrow> bool"

text \<open>An attempt ends as before, or with an exception that leaves the function.\<close>

datatype printed_end = Ended attempt_end | Escaped state

text \<open>Lines 155 to 159, the handler of \<^verbatim>\<open>except Exception\<close>.\<close>

definition handler :: "console \<Rightarrow> int \<Rightarrow> nat \<Rightarrow> state \<Rightarrow> printed_end" where
  "handler con token_id a s =
     (if a = RETRY_ATTEMPTS - 1 then
        (if con token_id a Handler then Escaped s else Ended (Returned False s))
      else Ended (Fell_through s))"

definition attempt_printing :: "env \<Rightarrow> console \<Rightarrow> int \<Rightarrow> nat \<Rightarrow> state \<Rightarrow> printed_end" where
  "attempt_printing env con token_id a s =
     (if a = 0 \<and> con token_id a Progress then handler con token_id a s
      else
        (let s1 = log_event (Request token_id a) s
         in case server env token_id a of
              Transport_error \<Rightarrow> handler con token_id a s1
            | Http status lines \<Rightarrow>
                if status = 200 then
                  (case read_stream lines of
                     Found token token_bytes \<Rightarrow>
                       (let s2 = log_event (Stored (str_of_int token_id))
                                   (s1\<lparr>token_index :=
                                         AList.update (str_of_int token_id)
                                           \<lparr>character = token, bytes = token_bytes\<rparr>
                                           (token_index s1)\<rparr>)
                        in if con token_id a Discovered then handler con token_id a s2
                           else Ended (Returned True s2))
                   | Raised_in_stream \<Rightarrow> handler con token_id a s1
                   | Exhausted \<Rightarrow> Ended (Fell_through s1))
                else if a = RETRY_ATTEMPTS - 1 then
                  (if con token_id a Http_error then handler con token_id a s1
                   else Ended (Returned False s1))
                else Ended (Fell_through s1)))"

text \<open>The result is \<open>None\<close> when an exception leaves the function.\<close>

fun attempts_printing ::
  "env \<Rightarrow> console \<Rightarrow> int \<Rightarrow> nat list \<Rightarrow> state \<Rightarrow> bool option \<times> state" where
  "attempts_printing env con token_id [] s = (Some False, s)"
| "attempts_printing env con token_id (a # as) s =
     (case attempt_printing env con token_id a s of
        Ended e \<Rightarrow>
          (case e of
             Returned ok s' \<Rightarrow> (Some ok, s')
           | Fell_through s' \<Rightarrow>
               attempts_printing env con token_id as (log_event (Sleep RETRY_DELAY) s'))
      | Escaped s' \<Rightarrow> (None, s'))"

definition process_token_id_printing ::
  "env \<Rightarrow> console \<Rightarrow> int \<Rightarrow> state \<Rightarrow> bool option \<times> state" where
  "process_token_id_printing env con token_id s =
     attempts_printing env con token_id [0..<RETRY_ATTEMPTS] s"

text \<open>
  The loop and the \<^verbatim>\<open>finally\<close> block with these calls: an exception out of
  \<^verbatim>\<open>_process_token_id\<close> leaves the loop at line 77, before the counters of lines 79 to
  87 are touched.
\<close>

fun sweep_loop_printing ::
  "env \<Rightarrow> console \<Rightarrow> int list \<Rightarrow> state \<Rightarrow> loop_exit \<times> state" where
  "sweep_loop_printing env con [] s = (Completed, s)"
| "sweep_loop_printing env con (token_id # rest) s =
     (if should_exit s then (Cancelled, s)
      else if has_key (token_index s) (str_of_int token_id) then
        sweep_loop_printing env con rest (deliver env token_id (count_skipped s))
      else
        (case process_token_id_printing env con token_id s of
           (None, s1) \<Rightarrow> (Raised, s1)
         | (Some success, s1) \<Rightarrow>
             (case save_at_interval env token_id (count_result success s1) of
                (True, s2) \<Rightarrow> (Raised, s2)
              | (False, s2) \<Rightarrow> sweep_loop_printing env con rest (deliver env token_id s2))))"

definition sweep_token_ids_printing ::
  "env \<Rightarrow> console \<Rightarrow> int \<Rightarrow> int \<Rightarrow> state \<Rightarrow> loop_exit \<times> state" where
  "sweep_token_ids_printing env con start_id end_id s =
     (case sweep_loop_printing env con [start_id..end_id] s of (ex, s1) \<Rightarrow> (ex, final_save s1))"

text \<open>
  A console that works, and one that has broken by the time the first id is processed
  (the start-up lines went through, then the reader of the pipe went away): every call
  raises, the statistics report too.
\<close>

definition quiet :: "console \<Rightarrow> bool" where
  "quiet con = (\<forall>token_id a site. \<not> con token_id a site)"

definition broken_console :: console where
  "broken_console = (\<lambda>token_id a site. True)"

definition broken_env :: env where
  "broken_env = example_env\<lparr>stats_report_fails := \<lambda>token_id. True\<rparr>"

section \<open>Properties\<close>

subsection \<open>Decimal strings: \<^verbatim>\<open>int(str(i))\<close> is \<open>i\<close>\<close>

lemma digit_val_digit_char: "d < 10 \<Longrightarrow> digit_val (digit_char d) = Some d"
  by (simp add: digit_val_def digit_char_def)

lemma digit_val_Some:
  "digit_val c = Some d \<Longrightarrow> \<not> is_space c \<and> c \<noteq> CHR ''_'' \<and> c \<noteq> CHR ''-'' \<and> c \<noteq> CHR ''+''"
  by (auto simp: digit_val_def is_space_def Let_def split: if_splits)

lemma all_digits_digits: "all_digits (digits n)"
proof (induction n rule: digits.induct)
  case (1 n)
  show ?case
  proof (cases "n < 10")
    case True
    then show ?thesis
      by (subst digits.simps) (simp add: all_digits_def digit_val_digit_char)
  next
    case False
    with 1 have "all_digits (digits (n div 10))" by simp
    moreover have "digit_val (digit_char (n mod 10)) = Some (n mod 10)"
      by (rule digit_val_digit_char) simp
    ultimately show ?thesis using False
      by (subst digits.simps) (simp add: all_digits_def)
  qed
qed

lemma digits_not_Nil: "digits n \<noteq> []"
  by (subst digits.simps) simp

lemma read_digits_snoc:
  assumes "all_digits cs" "digit_val c = Some d"
  shows "read_digits acc (cs @ [c]) = map_option (\<lambda>v. 10 * v + d) (read_digits acc cs)"
  using assms
proof (induction acc cs rule: read_digits.induct)
  case (1 acc)
  then show ?case by simp
next
  case (2 acc c0)
  then obtain d0 where d0: "digit_val c0 = Some d0" by (auto simp: all_digits_def)
  with digit_val_Some [OF d0] 2 show ?case by simp
next
  case (3 acc c0 c1 cs)
  then obtain d0 where d0: "digit_val c0 = Some d0" by (auto simp: all_digits_def)
  from digit_val_Some [OF d0] have nu: "c0 \<noteq> CHR ''_''" by simp
  from 3(3) have "all_digits (c1 # cs)" by (simp add: all_digits_def)
  from 3(2) [OF nu d0 this 3(4)] nu d0 show ?case by simp
qed

lemma py_nat_digits: "py_nat (digits n) = Some n"
proof (induction n rule: digits.induct)
  case (1 n)
  show ?case
  proof (cases "n < 10")
    case True
    then show ?thesis
      by (subst digits.simps) (simp add: py_nat_def digit_val_digit_char)
  next
    case False
    with 1 have ih: "py_nat (digits (n div 10)) = Some (n div 10)" by simp
    obtain c0 cs where cs: "digits (n div 10) = c0 # cs"
      using digits_not_Nil by (cases "digits (n div 10)") auto
    from all_digits_digits [of "n div 10"] cs obtain d0 where
      d0: "digit_val c0 = Some d0" and ad: "all_digits cs"
      by (auto simp: all_digits_def)
    from ih cs d0 have rd: "read_digits d0 cs = Some (n div 10)" by (simp add: py_nat_def)
    have dl: "digit_val (digit_char (n mod 10)) = Some (n mod 10)"
      by (rule digit_val_digit_char) simp
    have "digits n = c0 # (cs @ [digit_char (n mod 10)])"
      using False cs by (subst digits.simps) simp
    then have "py_nat (digits n) = read_digits d0 (cs @ [digit_char (n mod 10)])"
      using d0 by (simp add: py_nat_def)
    also have "\<dots> = Some (10 * (n div 10) + n mod 10)"
      by (simp add: read_digits_snoc [OF ad dl] rd)
    finally show ?thesis by simp
  qed
qed

lemma strip_id:
  assumes "s \<noteq> []" "\<not> is_space (hd s)" "\<not> is_space (last s)"
  shows "strip s = s"
proof -
  from assms have "dropWhile is_space s = s" by (cases s) simp_all
  moreover from assms have "dropWhile is_space (rev s) = rev s"
    by (cases "rev s") (simp_all add: last_rev [symmetric] hd_rev)
  ultimately show ?thesis by (simp add: strip_def)
qed

lemma digits_ends:
  "\<exists>d. digit_val (hd (digits n)) = Some d" "\<exists>d. digit_val (last (digits n)) = Some d"
  using all_digits_digits [of n] digits_not_Nil [of n]
  by (auto simp: all_digits_def)

lemma py_int_str_of_int: "py_int (str_of_int i) = Some i"
proof (cases "i < 0")
  case True
  let ?s = "CHR ''-'' # digits (nat (- i))"
  from digits_ends(2) [of "nat (- i)"] obtain d where "digit_val (last (digits (nat (- i)))) = Some d"
    by blast
  from digit_val_Some [OF this] have "\<not> is_space (last ?s)"
    using digits_not_Nil by simp
  moreover have "\<not> is_space (hd ?s)" by (simp add: is_space_def)
  ultimately have "strip ?s = ?s" by (intro strip_id) simp_all
  with True show ?thesis
    by (simp add: py_int_def str_of_int_def py_nat_digits)
next
  case False
  let ?s = "digits (nat i)"
  obtain c cs where cs: "?s = c # cs" using digits_not_Nil by (cases ?s) auto
  from digits_ends [of "nat i"] obtain d d' where
    d: "digit_val (hd ?s) = Some d" "digit_val (last ?s) = Some d'" by blast
  from digit_val_Some [OF d(1)] digit_val_Some [OF d(2)]
  have sp: "\<not> is_space (hd ?s)" "\<not> is_space (last ?s)" and sg: "hd ?s \<noteq> CHR ''-''" "hd ?s \<noteq> CHR ''+''"
    by simp_all
  have "strip ?s = ?s" using digits_not_Nil sp by (intro strip_id)
  moreover have "py_nat ?s = Some (nat i)" by (rule py_nat_digits)
  ultimately show ?thesis
    using False sg cs by (simp add: py_int_def str_of_int_def)
qed



subsection \<open>Projections of the state through the steps of the loop\<close>

lemma log_event_simps [simp]:
  "token_index (log_event e s) = token_index s"
  "token_counter (log_event e s) = token_counter s"
  "save_interval (log_event e s) = save_interval s"
  "should_exit (log_event e s) = should_exit s"
  "stats (log_event e s) = stats s"
  "files (log_event e s) = files s"
  "trace (log_event e s) = trace s @ [e]"
  by (simp_all add: log_event_def)

lemma save_mappings_simps [simp]:
  "token_index (save_mappings s) = token_index s"
  "token_counter (save_mappings s) = token_counter s"
  "save_interval (save_mappings s) = save_interval s"
  "should_exit (save_mappings s) = should_exit s"
  "stats (save_mappings s) = stats s"
  by (simp_all add: save_mappings_def)

lemma count_result_simps [simp]:
  "token_index (count_result b s) = token_index s"
  "token_counter (count_result b s) = token_counter s"
  "save_interval (count_result b s) = save_interval s"
  "should_exit (count_result b s) = should_exit s"
  "files (count_result b s) = files s"
  "trace (count_result b s) = trace s"
  "successful (stats (count_result b s)) = (if b then successful (stats s) + 1 else successful (stats s))"
  "failed (stats (count_result b s)) = (if b then failed (stats s) else failed (stats s) + 1)"
  "skipped (stats (count_result b s)) = skipped (stats s)"
  "total_processed (stats (count_result b s)) = total_processed (stats s) + 1"
  by (simp_all add: count_result_def Let_def)

lemma save_at_interval_simps [simp]:
  "token_index (snd (save_at_interval env tid s)) = token_index s"
  "stats (snd (save_at_interval env tid s)) = stats s"
  "should_exit (snd (save_at_interval env tid s)) = should_exit s"
  "save_interval (snd (save_at_interval env tid s)) = save_interval s"
  by (simp_all add: save_at_interval_def Let_def)

lemma save_at_interval_raised:
  "fst (save_at_interval env tid s) \<Longrightarrow> stats_report_fails env tid"
  by (simp add: save_at_interval_def Let_def split: if_splits)

subsection \<open>Projections of the state through the sweep\<close>

lemma upto_10_12: "[10..12] = [10, 11, 12 :: int]"
  by (simp add: upto.simps)

lemma init_sweeper_simps [simp]:
  "token_index (init_sweeper fs) = load_existing_mappings fs"
  "should_exit (init_sweeper fs) = False"
  "token_counter (init_sweeper fs) = 0"
  "save_interval (init_sweeper fs) = SAVE_INTERVAL"
  "trace (init_sweeper fs) = []"
  "files (init_sweeper fs) = fs"
  "stats (init_sweeper fs) = \<lparr>total_processed = 0, successful = 0, failed = 0, skipped = 0\<rparr>"
  by (simp_all add: init_sweeper_def)

lemma final_save_simps [simp]:
  "token_index (final_save s) = token_index s"
  "stats (final_save s) = stats s"
  "should_exit (final_save s) = should_exit s"
  "save_interval (final_save s) = save_interval s"
  by (simp_all add: final_save_def)

lemma deliver_simps [simp]:
  "token_index (deliver env tid s) = token_index s"
  "stats (deliver env tid s) = stats s"
  "token_counter (deliver env tid s) = token_counter s"
  "save_interval (deliver env tid s) = save_interval s"
  "files (deliver env tid s) = files s"
  "trace (deliver env tid s) = trace s"
  "should_exit (deliver env tid s) = (signal env tid \<or> should_exit s)"
  by (simp_all add: deliver_def)

subsection \<open>Retries\<close>

lemma range_attempts: "[0..<RETRY_ATTEMPTS] = [0, 1, 2]"
  by (simp add: RETRY_ATTEMPTS_def upt_rec)

lemma attempt_failing:
  assumes "failing (server env tid a)"
  shows "attempt env tid a s =
           (if a = RETRY_ATTEMPTS - 1 \<and> \<not> silent (server env tid a)
            then Returned False (log_event (Request tid a) s)
            else Fell_through (log_event (Request tid a) s))"
  using assms
  by (auto simp: attempt_def failing_def silent_def Let_def split: response.splits stream_result.splits)

lemma process_failing:
  assumes "\<forall>a < RETRY_ATTEMPTS. failing (server env tid a)"
  shows "process_token_id env tid s =
           (False, s\<lparr>trace := trace s @ [Request tid 0, Sleep RETRY_DELAY, Request tid 1, Sleep RETRY_DELAY, Request tid 2]
                       @ (if silent (server env tid 2) then [Sleep RETRY_DELAY] else [])\<rparr>)"
proof -
  have f: "failing (server env tid 0)" "failing (server env tid (Suc 0))" "failing (server env tid 2)"
    using assms by (simp_all add: RETRY_ATTEMPTS_def)
  have a0: "attempt env tid 0 s0 = Fell_through (log_event (Request tid 0) s0)" for s0
    by (simp add: attempt_failing [OF f(1)] RETRY_ATTEMPTS_def)
  have a1: "attempt env tid (Suc 0) s0 = Fell_through (log_event (Request tid 1) s0)" for s0
    by (simp add: attempt_failing [OF f(2)] RETRY_ATTEMPTS_def)
  have a2: "attempt env tid 2 s0 =
      (if silent (server env tid 2) then Fell_through (log_event (Request tid 2) s0)
       else Returned False (log_event (Request tid 2) s0))" for s0
    by (simp add: attempt_failing [OF f(3)] RETRY_ATTEMPTS_def)
  show ?thesis
    unfolding process_token_id_def range_attempts
    by (simp add: a0 a1 a2 log_event_def)
qed


lemma read_stream_skip:
  assumes "set pre \<subseteq> {Blank, Done_marker, Bad_json}"
  shows "read_stream (pre @ cs) = read_stream cs"
  using assms
proof (induction pre)
  case Nil
  then show ?case by simp
next
  case (Cons c pre)
  then show ?case by (cases c) auto
qed

lemma read_stream_cut: "read_stream (cut_stream cs) = read_stream cs"
  by (induction cs rule: cut_stream.induct) simp_all

lemma read_stream_Found:
  "read_stream cs = Found t bs \<Longrightarrow>
     \<exists>pre rest. cs = pre @ Fragment t # rest \<and> (\<forall>c \<in> set pre. \<not> is_fragment c)
       \<and> encode_utf8 t = Some bs"
proof (induction cs rule: read_stream.induct)
  case (6 t' cs)
  then have "t' = t" "encode_utf8 t = Some bs" by (auto split: option.splits)
  then have "Fragment t' # cs = [] @ Fragment t # cs \<and> (\<forall>c \<in> set []. \<not> is_fragment c) \<and> encode_utf8 t = Some bs"
    by simp
  then show ?case by blast
next
  case (2 cs)
  then obtain pre rest where "cs = pre @ Fragment t # rest" "\<forall>c \<in> set pre. \<not> is_fragment c" "encode_utf8 t = Some bs"
    by auto
  then have "Blank # cs = (Blank # pre) @ Fragment t # rest \<and> (\<forall>c \<in> set (Blank # pre). \<not> is_fragment c) \<and> encode_utf8 t = Some bs"
    by (simp add: is_fragment_def)
  then show ?case by blast
next
  case (3 cs)
  then obtain pre rest where "cs = pre @ Fragment t # rest" "\<forall>c \<in> set pre. \<not> is_fragment c" "encode_utf8 t = Some bs"
    by auto
  then have "Done_marker # cs = (Done_marker # pre) @ Fragment t # rest \<and> (\<forall>c \<in> set (Done_marker # pre). \<not> is_fragment c) \<and> encode_utf8 t = Some bs"
    by (simp add: is_fragment_def)
  then show ?case by blast
next
  case (4 cs)
  then obtain pre rest where "cs = pre @ Fragment t # rest" "\<forall>c \<in> set pre. \<not> is_fragment c" "encode_utf8 t = Some bs"
    by auto
  then have "Bad_json # cs = (Bad_json # pre) @ Fragment t # rest \<and> (\<forall>c \<in> set (Bad_json # pre). \<not> is_fragment c) \<and> encode_utf8 t = Some bs"
    by (simp add: is_fragment_def)
  then show ?case by blast
qed simp_all

lemma attempt_cut: "attempt (cut_server env) tid a s = attempt env tid a s"
  by (simp add: attempt_def cut_server_def cut_response_def read_stream_cut Let_def
      split: response.splits)

lemma attempts_cut: "attempts (cut_server env) tid as s = attempts env tid as s"
  by (induction as arbitrary: s) (simp_all add: attempt_cut split: attempt_end.splits)

lemma process_cut: "process_token_id (cut_server env) tid s = process_token_id env tid s"
  by (simp add: process_token_id_def attempts_cut)

text \<open>What a successful attempt stores; a failed one stores nothing.\<close>

lemma attempt_cases:
  "(\<exists>lines t bs. server env tid a = Http 200 lines \<and> read_stream lines = Found t bs
      \<and> attempt env tid a s = Returned True
           (log_event (Stored (str_of_int tid))
              ((log_event (Request tid a) s)\<lparr>token_index :=
                 AList.update (str_of_int tid) \<lparr>character = t, bytes = bs\<rparr> (token_index s)\<rparr>)))
   \<or> (failing (server env tid a) \<and>
       (attempt env tid a s = Returned False (log_event (Request tid a) s)
        \<or> attempt env tid a s = Fell_through (log_event (Request tid a) s)))"
  by (auto simp: attempt_def failing_def Let_def split: response.splits stream_result.splits)

lemma attempts_True:
  "attempts env tid as s = (True, s') \<Longrightarrow>
     \<exists>a \<in> set as. \<exists>lines t bs. server env tid a = Http 200 lines \<and> read_stream lines = Found t bs
       \<and> token_index s' = AList.update (str_of_int tid) \<lparr>character = t, bytes = bs\<rparr> (token_index s)"
proof (induction as arbitrary: s)
  case Nil
  then show ?case by simp
next
  case (Cons a as)
  from attempt_cases [of env tid a s] show ?case
  proof (elim disjE exE conjE)
    fix lines t bs
    assume "server env tid a = Http 200 lines" "read_stream lines = Found t bs"
      and "attempt env tid a s = Returned True
           (log_event (Stored (str_of_int tid))
              ((log_event (Request tid a) s)\<lparr>token_index :=
                 AList.update (str_of_int tid) \<lparr>character = t, bytes = bs\<rparr> (token_index s)\<rparr>))"
    with Cons.prems show ?thesis by auto
  next
    assume "attempt env tid a s = Returned False (log_event (Request tid a) s)"
    with Cons.prems show ?thesis by simp
  next
    assume f: "attempt env tid a s = Fell_through (log_event (Request tid a) s)"
    with Cons.prems have "attempts env tid as (log_event (Sleep RETRY_DELAY) (log_event (Request tid a) s)) = (True, s')"
      by simp
    from Cons.IH [OF this] show ?thesis by auto
  qed
qed

lemma attempts_False:
  "attempts env tid as s = (False, s') \<Longrightarrow> token_index s' = token_index s"
proof (induction as arbitrary: s)
  case Nil
  then show ?case by simp
next
  case (Cons a as)
  from attempt_cases [of env tid a s] show ?case
  proof (elim disjE exE conjE)
    fix lines t bs
    assume "attempt env tid a s = Returned True
           (log_event (Stored (str_of_int tid))
              ((log_event (Request tid a) s)\<lparr>token_index :=
                 AList.update (str_of_int tid) \<lparr>character = t, bytes = bs\<rparr> (token_index s)\<rparr>))"
    with Cons.prems show ?thesis by simp
  next
    assume "attempt env tid a s = Returned False (log_event (Request tid a) s)"
    with Cons.prems show ?thesis by auto
  next
    assume f: "attempt env tid a s = Fell_through (log_event (Request tid a) s)"
    with Cons.prems have "attempts env tid as (log_event (Sleep RETRY_DELAY) (log_event (Request tid a) s)) = (False, s')"
      by simp
    from Cons.IH [OF this] show ?thesis by simp
  qed
qed


subsection \<open>The concrete run\<close>

lemma example_env_simps [simp]:
  "server example_env 10 a = Http 200 [Fragment (text_of ''a'')]"
  "server example_env 11 a = Transport_error"
  "server example_env 12 a = Http 200 [Blank, Bad_json, Fragment (text_of ''bc''), Fragment (text_of ''zz'')]"
  "server example_env 13 a = Http 200 [Done_marker, Fragment [], Fragment (text_of ''zz'')]"
  "signal example_env tid = False"
  "stats_report_fails example_env tid = False"
  by (simp_all add: example_env_def)

lemma load_no_files [simp]: "load_existing_mappings no_files = []"
  by (simp add: no_files_def load_existing_mappings_def)


subsection \<open>A first attempt that succeeds\<close>

lemma first_attempt_success:
  assumes "server env tid 0 = Http 200 lines" "read_stream lines = Found t bs"
  shows "process_token_id env tid s =
           (True, log_event (Stored (str_of_int tid))
              ((log_event (Request tid 0) s)\<lparr>token_index :=
                 AList.update (str_of_int tid) \<lparr>character = t, bytes = bs\<rparr> (token_index s)\<rparr>))"
  using assms by (simp add: process_token_id_def range_attempts attempt_def Let_def)

lemma process_and_count_success:
  assumes "process_token_id env tid s = (True, s1)"
  shows "successful (stats (snd (process_and_count env tid s))) = successful (stats s1) + 1"
    and "failed (stats (snd (process_and_count env tid s))) = failed (stats s1)"
    and "token_index (snd (process_and_count env tid s)) = token_index s1"
  using assms by (simp_all add: process_and_count_def)

lemma map_of_update_same: "map_of (AList.update k v al) k = Some v"
  by (simp add: update_conv')

subsection \<open>Servers that agree up to the first fragment\<close>

lemma attempt_server_cong:
  assumes "cut_response (server env' tid a) = cut_response (server env tid a)"
  shows "attempt env' tid a s = attempt env tid a s"
proof (cases "server env tid a")
  case Transport_error
  with assms have "server env' tid a = Transport_error"
    by (cases "server env' tid a") (simp_all add: cut_response_def)
  with Transport_error show ?thesis by (simp add: attempt_def)
next
  case (Http st ls)
  with assms obtain ls' where h: "server env' tid a = Http st ls'" and c: "cut_stream ls' = cut_stream ls"
    by (cases "server env' tid a") (simp_all add: cut_response_def)
  have "read_stream ls' = read_stream (cut_stream ls')" by (simp only: read_stream_cut)
  also have "\<dots> = read_stream ls" by (simp only: c read_stream_cut)
  finally have "read_stream ls' = read_stream ls" .
  with Http h show ?thesis by (simp add: attempt_def Let_def)
qed

lemma attempts_server_cong:
  assumes "\<forall>a. cut_response (server env' tid a) = cut_response (server env tid a)"
  shows "attempts env' tid as s = attempts env tid as s"
proof (induction as arbitrary: s)
  case Nil
  show ?case by simp
next
  case (Cons a as)
  have "attempt env' tid a s = attempt env tid a s"
    using assms by (intro attempt_server_cong) simp
  then show ?case
    by (simp add: Cons.IH split: attempt_end.splits)
qed

subsection \<open>Values of the concrete run\<close>

lemma str_10: "str_of_int 10 = ''10''" by code_simp
lemma str_11: "str_of_int 11 = ''11''" by code_simp
lemma str_12: "str_of_int 12 = ''12''" by code_simp
lemma str_13: "str_of_int 13 = ''13''" by code_simp

lemma encode_a: "encode_utf8 (text_of ''a'') = Some [97]"
  by (simp add: text_of_def encode_char_def)
lemma encode_bc: "encode_utf8 (text_of ''bc'') = Some [98, 99]"
  by (simp add: text_of_def encode_char_def)

subsection \<open>Saving\<close>

lemma set_sorted_token_index: "sorted_token_index idx = Some d \<Longrightarrow> set d = set idx"
  by (auto simp: sorted_token_index_def split: if_splits)

lemma mset_sorted_token_index: "sorted_token_index idx = Some d \<Longrightarrow> mset d = mset idx"
  by (auto simp: sorted_token_index_def split: if_splits)

lemma save_result_Some:
  "save_result idx = Some d \<longleftrightarrow> sorted_token_index idx = Some d \<and> writable d"
  by (auto simp: save_result_def split: option.splits)

lemma set_save_result: "save_result idx = Some d \<Longrightarrow> set d = set idx"
  by (simp add: save_result_Some set_sorted_token_index)

lemma save_steps_ok:
  "save_result idx = Some d \<Longrightarrow>
     save_steps fs idx =
       [fs, fs\<lparr>temp_file := Some (Partial d)\<rparr>, fs\<lparr>temp_file := Some (Document d)\<rparr>,
        fs\<lparr>temp_file := None, output_file := Some (Document d)\<rparr>]"
  by (simp add: save_result_Some save_steps_def)

lemma save_steps_failed:
  "save_result idx = None \<Longrightarrow> output_file (last (save_steps fs idx)) = output_file fs"
  by (auto simp: save_result_def save_steps_def split: option.splits if_splits)

lemma files_save_mappings_ok:
  "save_result (token_index s) = Some d \<Longrightarrow>
     files (save_mappings s) = (files s)\<lparr>temp_file := None, output_file := Some (Document d)\<rparr>"
  by (simp add: save_mappings_def save_steps_ok)

lemma output_save_mappings_failed:
  "save_result (token_index s) = None \<Longrightarrow>
     output_file (files (save_mappings s)) = output_file (files s)"
  by (simp add: save_mappings_def save_steps_failed)

lemma trace_save_mappings:
  "trace (save_mappings s) =
     trace s @ [case save_result (token_index s) of Some d \<Rightarrow> Save_ok d | None \<Rightarrow> Save_failed]"
  by (simp add: save_mappings_def)

lemma one_record_simps [simp]:
  "token_index one_record = [(''10'', \<lparr>character = text_of ''a'', bytes = [97]\<rparr>)]"
  "files one_record = no_files"
  by (simp_all add: one_record_def)

lemma py_int_10: "py_int ''10'' = Some 10" by code_simp

lemma save_result_one_record:
  "save_result [(''10'', \<lparr>character = text_of ''a'', bytes = [97]\<rparr>)]
     = Some [(''10'', \<lparr>character = text_of ''a'', bytes = [97]\<rparr>)]"
  by (simp add: save_result_def sorted_token_index_def py_int_10 writable_def encode_a)

lemma save_steps_one_record:
  "save_steps no_files [(''10'', \<lparr>character = text_of ''a'', bytes = [97]\<rparr>)] =
       [no_files,
        no_files\<lparr>temp_file := Some (Partial [(''10'', \<lparr>character = text_of ''a'', bytes = [97]\<rparr>)])\<rparr>,
        no_files\<lparr>temp_file := Some (Document [(''10'', \<lparr>character = text_of ''a'', bytes = [97]\<rparr>)])\<rparr>,
        no_files\<lparr>temp_file := None,
                 output_file := Some (Document [(''10'', \<lparr>character = text_of ''a'', bytes = [97]\<rparr>)])\<rparr>]"
  by (rule save_steps_ok [OF save_result_one_record])


subsection \<open>The shape of a call and invariants of the loop\<close>

lemma attempts_shape:
  "\<exists>evs. (\<forall>e \<in> set evs. is_attempt_event tid e) \<and>
     (attempts env tid as s = (False, s\<lparr>trace := trace s @ evs\<rparr>)
      \<or> (\<exists>t bs. encode_utf8 t = Some bs \<and>
            attempts env tid as s =
              (True, s\<lparr>token_index :=
                         AList.update (str_of_int tid) \<lparr>character = t, bytes = bs\<rparr> (token_index s),
                       trace := trace s @ evs @ [Stored (str_of_int tid)]\<rparr>)))"
proof (induction as arbitrary: s)
  case Nil
  have "(\<forall>e \<in> set []. is_attempt_event tid e) \<and> attempts env tid [] s = (False, s\<lparr>trace := trace s @ []\<rparr>)"
    by simp
  then show ?case by blast
next
  case (Cons a as)
  let ?r = "Request tid a"
  have ev: "is_attempt_event tid ?r" "is_attempt_event tid (Sleep RETRY_DELAY)"
    by (simp_all add: is_attempt_event_def)
  from attempt_cases [of env tid a s] show ?case
  proof (elim disjE exE conjE)
    fix lines t bs
    assume rs: "read_stream lines = Found t bs"
      and at: "attempt env tid a s = Returned True
           (log_event (Stored (str_of_int tid))
              ((log_event (Request tid a) s)\<lparr>token_index :=
                 AList.update (str_of_int tid) \<lparr>character = t, bytes = bs\<rparr> (token_index s)\<rparr>))"
    from read_stream_Found [OF rs] have enc: "encode_utf8 t = Some bs" by blast
    have "attempts env tid (a # as) s =
              (True, s\<lparr>token_index :=
                         AList.update (str_of_int tid) \<lparr>character = t, bytes = bs\<rparr> (token_index s),
                       trace := trace s @ [?r] @ [Stored (str_of_int tid)]\<rparr>)"
      by (simp add: at log_event_def)
    with enc ev(1) have "(\<forall>e \<in> set [?r]. is_attempt_event tid e) \<and>
       (\<exists>t bs. encode_utf8 t = Some bs \<and> attempts env tid (a # as) s =
              (True, s\<lparr>token_index :=
                         AList.update (str_of_int tid) \<lparr>character = t, bytes = bs\<rparr> (token_index s),
                       trace := trace s @ [?r] @ [Stored (str_of_int tid)]\<rparr>))"
      by auto
    then show ?thesis by blast
  next
    assume "attempt env tid a s = Returned False (log_event (Request tid a) s)"
    then have "attempts env tid (a # as) s = (False, s\<lparr>trace := trace s @ [?r]\<rparr>)"
      by (simp add: log_event_def)
    with ev(1) have "(\<forall>e \<in> set [?r]. is_attempt_event tid e) \<and>
        attempts env tid (a # as) s = (False, s\<lparr>trace := trace s @ [?r]\<rparr>)"
      by simp
    then show ?thesis by blast
  next
    assume f: "attempt env tid a s = Fell_through (log_event (Request tid a) s)"
    let ?s1 = "log_event (Sleep RETRY_DELAY) (log_event (Request tid a) s)"
    have step: "attempts env tid (a # as) s = attempts env tid as ?s1"
      by (simp add: f)
    from Cons.IH [of ?s1] obtain evs where
      evs: "\<forall>e \<in> set evs. is_attempt_event tid e"
      and res: "attempts env tid as ?s1 = (False, ?s1\<lparr>trace := trace ?s1 @ evs\<rparr>)
      \<or> (\<exists>t bs. encode_utf8 t = Some bs \<and>
            attempts env tid as ?s1 =
              (True, ?s1\<lparr>token_index :=
                         AList.update (str_of_int tid) \<lparr>character = t, bytes = bs\<rparr> (token_index ?s1),
                       trace := trace ?s1 @ evs @ [Stored (str_of_int tid)]\<rparr>))"
      by blast
    let ?evs = "?r # Sleep RETRY_DELAY # evs"
    have all: "\<forall>e \<in> set ?evs. is_attempt_event tid e"
      using evs ev by simp
    from res have "attempts env tid (a # as) s = (False, s\<lparr>trace := trace s @ ?evs\<rparr>)
      \<or> (\<exists>t bs. encode_utf8 t = Some bs \<and>
            attempts env tid (a # as) s =
              (True, s\<lparr>token_index :=
                         AList.update (str_of_int tid) \<lparr>character = t, bytes = bs\<rparr> (token_index s),
                       trace := trace s @ ?evs @ [Stored (str_of_int tid)]\<rparr>))"
      unfolding step by (auto simp: log_event_def)
    with all show ?thesis by blast
  qed
qed

lemma process_token_id_cases:
  obtains (failed) evs where
      "process_token_id env tid s = (False, s\<lparr>trace := trace s @ evs\<rparr>)"
      "\<forall>e \<in> set evs. is_attempt_event tid e"
  | (stored) evs t bs where
      "encode_utf8 t = Some bs"
      "process_token_id env tid s =
         (True, s\<lparr>token_index :=
                    AList.update (str_of_int tid) \<lparr>character = t, bytes = bs\<rparr> (token_index s),
                  trace := trace s @ evs @ [Stored (str_of_int tid)]\<rparr>)"
      "\<forall>e \<in> set evs. is_attempt_event tid e"
  using attempts_shape [of tid env "[0..<RETRY_ATTEMPTS]" s]
  unfolding process_token_id_def by blast

text \<open>An invariant of the loop is one that a skipped id and a processed id keep.\<close>

lemma sweep_loop_invariant:
  assumes "I s"
    and skip: "\<And>s tid. I s \<Longrightarrow> \<not> should_exit s \<Longrightarrow> has_key (token_index s) (str_of_int tid)
                \<Longrightarrow> I (deliver env tid (count_skipped s))"
    and proc: "\<And>s tid r s1. I s \<Longrightarrow> \<not> should_exit s \<Longrightarrow> \<not> has_key (token_index s) (str_of_int tid)
                \<Longrightarrow> process_and_count env tid s = (r, s1) \<Longrightarrow> I s1 \<and> I (deliver env tid s1)"
  shows "I (snd (sweep_loop env tids s))"
  using assms(1)
proof (induction tids arbitrary: s)
  case Nil
  then show ?case by simp
next
  case (Cons tid tids)
  show ?case
  proof (cases "should_exit s")
    case True
    with Cons.prems show ?thesis by simp
  next
    case False
    show ?thesis
    proof (cases "has_key (token_index s) (str_of_int tid)")
      case True
      with False Cons.prems have "I (deliver env tid (count_skipped s))" by (intro skip)
      from Cons.IH [OF this] False True show ?thesis by simp
    next
      case nk: False
      obtain r s1 where pc: "process_and_count env tid s = (r, s1)" by (cases "process_and_count env tid s")
      from proc [OF Cons.prems False nk pc] have i1: "I s1" and i2: "I (deliver env tid s1)" by simp_all
      show ?thesis
      proof (cases r)
        case True
        with False nk pc i1 show ?thesis by simp
      next
        case r: False
        from Cons.IH [OF i2] False nk pc r show ?thesis by simp
      qed
    qed
  qed
qed


lemma count_skipped_simps [simp]:
  "token_index (count_skipped s) = token_index s"
  "token_counter (count_skipped s) = token_counter s"
  "save_interval (count_skipped s) = save_interval s"
  "should_exit (count_skipped s) = should_exit s"
  "files (count_skipped s) = files s"
  "trace (count_skipped s) = trace s"
  "skipped (stats (count_skipped s)) = skipped (stats s) + 1"
  "successful (stats (count_skipped s)) = successful (stats s)"
  "failed (stats (count_skipped s)) = failed (stats s)"
  "total_processed (stats (count_skipped s)) = total_processed (stats s)"
  by (simp_all add: count_skipped_def)

lemma save_mappings_files:
  "output_file (files (save_mappings s)) =
     (case save_result (token_index s) of
        Some d \<Rightarrow> Some (Document d) | None \<Rightarrow> output_file (files s))"
  by (simp add: files_save_mappings_ok output_save_mappings_failed split: option.splits)

text \<open>
  What a processed id leaves: the index is unchanged or has one more record, with
  encodable text under the id's key; the trace grew by attempt events, the store and at
  most one save of the new index; the checkpoint is unchanged or that save's document.
\<close>

lemma process_and_count_shape:
  assumes "process_and_count env tid s = (r, s1)"
  shows "\<exists>evs sv.
           (token_index s1 = token_index s
            \<or> (\<exists>t bs. encode_utf8 t = Some bs \<and>
                  token_index s1 =
                    AList.update (str_of_int tid) \<lparr>character = t, bytes = bs\<rparr> (token_index s)))
         \<and> trace s1 = trace s @ evs @ sv
         \<and> (\<forall>e \<in> set evs. is_attempt_event tid e \<or> e = Stored (str_of_int tid))
         \<and> ((sv = [] \<and> files s1 = files s)
            \<or> (sv = [case save_result (token_index s1) of Some d \<Rightarrow> Save_ok d | None \<Rightarrow> Save_failed]
                \<and> output_file (files s1) =
                    (case save_result (token_index s1) of
                       Some d \<Rightarrow> Some (Document d) | None \<Rightarrow> output_file (files s))))
         \<and> should_exit s1 = should_exit s \<and> save_interval s1 = save_interval s"
proof (cases rule: process_token_id_cases [of env tid s])
  case (failed evs)
  let ?sc = "count_result False (s\<lparr>trace := trace s @ evs\<rparr>)"
  let ?s' = "?sc\<lparr>token_counter := token_counter ?sc + 1\<rparr>"
  have e: "\<forall>e \<in> set evs. is_attempt_event tid e \<or> e = Stored (str_of_int tid)"
    using failed(2) by blast
  show ?thesis
  proof (cases "token_counter ?s' \<ge> save_interval ?s'")
    case True
    then have s1: "s1 = save_mappings ?s' \<or> s1 = (save_mappings ?s')\<lparr>token_counter := 0\<rparr>"
      using assms by (auto simp: process_and_count_def failed(1) save_at_interval_def Let_def split: if_splits)
    let ?sv = "[case save_result (token_index s1) of Some d \<Rightarrow> Save_ok d | None \<Rightarrow> Save_failed]"
    from s1 have "token_index s1 = token_index s" "trace s1 = trace s @ evs @ ?sv"
      "output_file (files s1) = (case save_result (token_index s1) of
                       Some d \<Rightarrow> Some (Document d) | None \<Rightarrow> output_file (files s))"
      "should_exit s1 = should_exit s" "save_interval s1 = save_interval s"
      by (auto simp: trace_save_mappings save_mappings_files split: option.splits)
    with e show ?thesis by blast
  next
    case False
    then have s1: "s1 = ?s'"
      using assms by (auto simp: process_and_count_def failed(1) save_at_interval_def Let_def split: if_splits)
    then have "token_index s1 = token_index s" "trace s1 = trace s @ evs @ []" "files s1 = files s"
      "should_exit s1 = should_exit s" "save_interval s1 = save_interval s"
      by simp_all
    with e show ?thesis by blast
  qed
next
  case (stored evs t bs)
  let ?idx = "AList.update (str_of_int tid) \<lparr>character = t, bytes = bs\<rparr> (token_index s)"
  let ?sp = "s\<lparr>token_index := ?idx, trace := trace s @ evs @ [Stored (str_of_int tid)]\<rparr>"
  let ?sc = "count_result True ?sp"
  let ?s' = "?sc\<lparr>token_counter := token_counter ?sc + 1\<rparr>"
  let ?evs = "evs @ [Stored (str_of_int tid)]"
  have e: "\<forall>e \<in> set ?evs. is_attempt_event tid e \<or> e = Stored (str_of_int tid)"
    using stored(3) by auto
  have i: "\<exists>t bs. encode_utf8 t = Some bs \<and> ?idx = AList.update (str_of_int tid) \<lparr>character = t, bytes = bs\<rparr> (token_index s)"
    using stored(1) by blast
  show ?thesis
  proof (cases "token_counter ?s' \<ge> save_interval ?s'")
    case True
    then have s1: "s1 = save_mappings ?s' \<or> s1 = (save_mappings ?s')\<lparr>token_counter := 0\<rparr>"
      using assms by (auto simp: process_and_count_def stored(2) save_at_interval_def Let_def split: if_splits)
    let ?sv = "[case save_result (token_index s1) of Some d \<Rightarrow> Save_ok d | None \<Rightarrow> Save_failed]"
    from s1 have "token_index s1 = ?idx" "trace s1 = trace s @ ?evs @ ?sv"
      "output_file (files s1) = (case save_result (token_index s1) of
                       Some d \<Rightarrow> Some (Document d) | None \<Rightarrow> output_file (files s))"
      "should_exit s1 = should_exit s" "save_interval s1 = save_interval s"
      by (auto simp: trace_save_mappings save_mappings_files split: option.splits)
    with e i show ?thesis by metis
  next
    case False
    then have s1: "s1 = ?s'"
      using assms by (auto simp: process_and_count_def stored(2) save_at_interval_def Let_def split: if_splits)
    then have "token_index s1 = ?idx" "trace s1 = trace s @ ?evs @ []" "files s1 = files s"
      "should_exit s1 = should_exit s" "save_interval s1 = save_interval s"
      by simp_all
    with e i show ?thesis by metis
  qed
qed


lemma sweep_token_ids_parts:
  "snd (sweep_token_ids env a b s) = final_save (snd (sweep_loop env [a..b] s))"
  "fst (sweep_token_ids env a b s) = fst (sweep_loop env [a..b] s)"
  by (simp_all add: sweep_token_ids_def split: prod.splits)

text \<open>
  Properties of the documents a run saves: \<open>A\<close> is a property of the index that storing
  a new record keeps, \<open>B\<close> one that every saved document of such an index has.
\<close>

lemma sweep_saves:
  assumes A0: "A (token_index s)"
    and B0: "\<forall>d. Save_ok d \<in> set (trace s) \<longrightarrow> B d"
    and upd: "\<And>idx tid t bs. A idx \<Longrightarrow> encode_utf8 t = Some bs \<Longrightarrow> \<not> has_key idx (str_of_int tid)
                \<Longrightarrow> A (AList.update (str_of_int tid) \<lparr>character = t, bytes = bs\<rparr> idx)"
    and sv: "\<And>idx d. A idx \<Longrightarrow> save_result idx = Some d \<Longrightarrow> B d"
  shows "A (token_index (snd (sweep_token_ids env a b s)))
       \<and> (\<forall>d. Save_ok d \<in> set (trace (snd (sweep_token_ids env a b s))) \<longrightarrow> B d)
       \<and> (output_file (files (snd (sweep_token_ids env a b s))) = output_file (files s)
           \<or> (\<exists>d. output_file (files (snd (sweep_token_ids env a b s))) = Some (Document d) \<and> B d))"
proof -
  define I where "I s' \<longleftrightarrow> A (token_index s')
       \<and> (\<forall>d. Save_ok d \<in> set (trace s') \<longrightarrow> B d)
       \<and> (output_file (files s') = output_file (files s)
           \<or> (\<exists>d. output_file (files s') = Some (Document d) \<and> B d))" for s' :: state
  have i0: "I s" using A0 B0 by (simp add: I_def)
  have saved: "I (save_mappings s')" if "I s'" for s'
  proof (cases "save_result (token_index s')")
    case None
    with that show ?thesis
      by (auto simp: I_def trace_save_mappings save_mappings_files)
  next
    case (Some d)
    with that have "B d" using sv by (auto simp: I_def)
    with Some that show ?thesis
      by (auto simp: I_def trace_save_mappings save_mappings_files)
  qed
  have loop: "I (snd (sweep_loop env [a..b] s))"
  proof (rule sweep_loop_invariant [where I = I, OF i0])
    fix s' tid
    assume "I s'"
    then show "I (deliver env tid (count_skipped s'))" by (simp add: I_def)
  next
    fix s' tid r s1
    assume i: "I s'" and nk: "\<not> has_key (token_index s') (str_of_int tid)"
      and pc: "process_and_count env tid s' = (r, s1)"
    from process_and_count_shape [OF pc] obtain evs sv' where
      idx: "token_index s1 = token_index s'
            \<or> (\<exists>t bs. encode_utf8 t = Some bs \<and>
                  token_index s1 =
                    AList.update (str_of_int tid) \<lparr>character = t, bytes = bs\<rparr> (token_index s'))"
      and tr: "trace s1 = trace s' @ evs @ sv'"
      and ev: "\<forall>e \<in> set evs. is_attempt_event tid e \<or> e = Stored (str_of_int tid)"
      and fl: "(sv' = [] \<and> files s1 = files s')
            \<or> (sv' = [case save_result (token_index s1) of Some d \<Rightarrow> Save_ok d | None \<Rightarrow> Save_failed]
                \<and> output_file (files s1) =
                    (case save_result (token_index s1) of
                       Some d \<Rightarrow> Some (Document d) | None \<Rightarrow> output_file (files s')))"
      by blast
    from i have a': "A (token_index s')" by (simp add: I_def)
    from idx a' nk have a1: "A (token_index s1)" using upd by auto
    have noev: "Save_ok d \<notin> set evs" for d
      using ev by (auto simp: is_attempt_event_def)
    have b1: "\<forall>d. Save_ok d \<in> set (trace s1) \<longrightarrow> B d"
    proof (intro allI impI)
      fix d assume "Save_ok d \<in> set (trace s1)"
      with tr noev have "Save_ok d \<in> set (trace s') \<or> Save_ok d \<in> set sv'" by auto
      then show "B d"
      proof
        assume "Save_ok d \<in> set (trace s')"
        with i show ?thesis by (simp add: I_def)
      next
        assume "Save_ok d \<in> set sv'"
        with fl have "save_result (token_index s1) = Some d"
          by (auto split: option.splits)
        with a1 show ?thesis by (rule sv)
      qed
    qed
    have f1: "output_file (files s1) = output_file (files s)
           \<or> (\<exists>d. output_file (files s1) = Some (Document d) \<and> B d)"
    proof (cases "save_result (token_index s1)")
      case None
      with fl have "output_file (files s1) = output_file (files s')" by auto
      with i show ?thesis by (simp add: I_def)
    next
      case (Some d)
      with a1 have "B d" by (intro sv)
      with Some fl i show ?thesis by (auto simp: I_def)
    qed
    from a1 b1 f1 have "I s1" by (simp add: I_def)
    then show "I s1 \<and> I (deliver env tid s1)" by (simp add: I_def)
  qed
  have "I (final_save (snd (sweep_loop env [a..b] s)))"
    using loop saved by (simp add: final_save_def)
  then show ?thesis
    by (simp add: I_def sweep_token_ids_parts)
qed


subsection \<open>A new key goes to the end of the index\<close>

lemma update_new:
  "\<not> has_key idx k \<Longrightarrow> AList.update k v idx = idx @ [(k, v)]"
  by (induction idx) (auto simp: has_key_def)

lemma example_env_other:
  "tid \<noteq> 10 \<Longrightarrow> tid \<noteq> 11 \<Longrightarrow> tid \<noteq> 13 \<Longrightarrow>
     server example_env tid a = Http 200 [Blank, Bad_json, Fragment (text_of ''bc''), Fragment (text_of ''zz'')]"
  by (simp add: example_env_def)

lemma read_example_other:
  "read_stream [Blank, Bad_json, Fragment (text_of ''bc''), Fragment (text_of ''zz'')]
     = Found (text_of ''bc'') [98, 99]"
  by (simp add: encode_bc)


subsection \<open>Sorting an index with canonical keys\<close>

lemma canonical_keys_update:
  assumes "canonical_keys idx" "\<not> has_key idx (str_of_int tid)"
  shows "canonical_keys (AList.update (str_of_int tid) v idx)"
  using assms
  by (auto simp: canonical_keys_def update_new has_key_def py_int_str_of_int)

lemma canonical_sorted_ascending:
  assumes "canonical_keys idx" "sorted_token_index idx = Some d"
  shows "ascending d"
proof -
  let ?f = "\<lambda>item :: string \<times> token_record. the (py_int (fst item))"
  from assms(2) have d: "d = sort_key ?f idx"
    by (auto simp: sorted_token_index_def split: if_splits)
  have key: "str_of_int (?f x) = fst x \<and> py_int (fst x) = Some (?f x)" if "x \<in> set idx" for x
    using assms(1) that by (auto simp: canonical_keys_def split: option.splits)
  have "inj_on ?f (set idx)"
  proof (rule inj_onI)
    fix x y assume xy: "x \<in> set idx" "y \<in> set idx" "?f x = ?f y"
    with key [of x] key [of y] have "fst x = fst y" by metis
    moreover from assms(1) have "inj_on fst (set idx)"
      by (simp add: canonical_keys_def distinct_map)
    ultimately show "x = y" using xy(1,2) by (simp add: inj_on_def)
  qed
  moreover have "distinct idx"
    using assms(1) by (simp add: canonical_keys_def distinct_map)
  ultimately have "distinct (map ?f idx)" by (simp add: distinct_map)
  then have "distinct (map ?f d)"
    unfolding d by (metis distinct_map distinct_sort set_sort)
  moreover have "sorted (map ?f d)" unfolding d by (rule sorted_sort_key)
  ultimately have "sorted_wrt (<) (map ?f d)" by (simp add: strict_sorted_iff)
  then have "sorted_wrt (\<lambda>x y. ?f x < ?f y) d" by (simp add: sorted_wrt_map)
  moreover have "key_less x y" if "x \<in> set d" "y \<in> set d" "?f x < ?f y" for x y
  proof -
    from that key [of x] key [of y] obtain i j where
      "py_int (fst x) = Some i" "py_int (fst y) = Some j" "i < j"
      by (auto simp: d)
    then show ?thesis by (simp add: key_less_def)
  qed
  ultimately show ?thesis
    unfolding ascending_def by (rule sorted_wrt_mono_rel [rotated]) simp
qed


subsection \<open>A run over a checkpoint that is not sorted\<close>

lemma upto_10_10: "[10..10] = [10 :: int]" by (simp add: upto.simps)
lemma py_int_9: "py_int ''9'' = Some 9" by code_simp
lemma py_int_12: "py_int ''12'' = Some 12" by code_simp
lemma str_9: "str_of_int 9 = ''9''" by code_simp

lemma load_unsorted_files [simp]:
  "load_existing_mappings unsorted_files =
     [(''12'', \<lparr>character = text_of ''bc'', bytes = [98, 99]\<rparr>),
      (''9'', \<lparr>character = text_of ''bc'', bytes = [98, 99]\<rparr>)]"
  by (simp add: load_existing_mappings_def unsorted_files_def json_load_def)

lemma process_10:
  "process_token_id example_env 10 s =
           (True, log_event (Stored (str_of_int 10))
              ((log_event (Request 10 0) s)\<lparr>token_index :=
                 AList.update (str_of_int 10) \<lparr>character = text_of ''a'', bytes = [97]\<rparr> (token_index s)\<rparr>))"
  by (rule first_attempt_success [where lines = "[Fragment (text_of ''a'')]"]) (simp_all add: encode_a)

lemma unsorted_run_output:
  "output_file (files (snd (sweep_token_ids example_env 10 10 (init_sweeper unsorted_files))))
     = Some (Document [(''9'', \<lparr>character = text_of ''bc'', bytes = [98, 99]\<rparr>),
                       (''10'', \<lparr>character = text_of ''a'', bytes = [97]\<rparr>),
                       (''12'', \<lparr>character = text_of ''bc'', bytes = [98, 99]\<rparr>)])"
proof -
  have sr: "save_result [(''12'', \<lparr>character = text_of ''bc'', bytes = [98, 99]\<rparr>),
                       (''9'', \<lparr>character = text_of ''bc'', bytes = [98, 99]\<rparr>),
                       (''10'', \<lparr>character = text_of ''a'', bytes = [97]\<rparr>)]
      = Some [(''9'', \<lparr>character = text_of ''bc'', bytes = [98, 99]\<rparr>),
                       (''10'', \<lparr>character = text_of ''a'', bytes = [97]\<rparr>),
                       (''12'', \<lparr>character = text_of ''bc'', bytes = [98, 99]\<rparr>)]"
    by (simp add: save_result_def sorted_token_index_def py_int_9 py_int_10 py_int_12 writable_def encode_a encode_bc)
  show ?thesis
    by (simp add: sweep_token_ids_def upto_10_10 has_key_def str_10 process_and_count_def process_10
        save_at_interval_def SAVE_INTERVAL_def Let_def final_save_def save_mappings_files sr)
qed

subsection \<open>One processed id, in full\<close>

lemma process_and_count_detail:
  assumes "process_and_count env tid s = (r, s1)"
  shows "\<exists>ok evs sv.
           ok = fst (process_token_id env tid s)
         \<and> (if ok then \<exists>t bs. encode_utf8 t = Some bs \<and>
                  token_index s1 =
                    AList.update (str_of_int tid) \<lparr>character = t, bytes = bs\<rparr> (token_index s)
             else token_index s1 = token_index s)
         \<and> trace s1 = trace s @ evs @ (if ok then [Stored (str_of_int tid)] else []) @ sv
         \<and> (\<forall>e \<in> set evs. is_attempt_event tid e)
         \<and> ((sv = [] \<and> files s1 = files s \<and> token_counter s1 = Suc (token_counter s) \<and> \<not> r)
            \<or> (sv = [save_event (token_index s1)]
                \<and> output_file (files s1) =
                    (case save_result (token_index s1) of
                       Some d \<Rightarrow> Some (Document d) | None \<Rightarrow> output_file (files s))
                \<and> (if r then token_counter s1 = Suc (token_counter s) \<and> stats_report_fails env tid
                    else token_counter s1 = 0)))
         \<and> stats s1 = stats (count_result ok s)
         \<and> should_exit s1 = should_exit s \<and> save_interval s1 = save_interval s"
proof -
  obtain ok sp where p: "process_token_id env tid s = (ok, sp)"
    by (cases "process_token_id env tid s")
  obtain evs where ev: "\<forall>e \<in> set evs. is_attempt_event tid e"
    and tr: "trace sp = trace s @ evs @ (if ok then [Stored (str_of_int tid)] else [])"
    and ix: "if ok then \<exists>t bs. encode_utf8 t = Some bs \<and>
                  token_index sp =
                    AList.update (str_of_int tid) \<lparr>character = t, bytes = bs\<rparr> (token_index s)
             else token_index sp = token_index s"
    and other: "files sp = files s" "token_counter sp = token_counter s" "stats sp = stats s"
      "should_exit sp = should_exit s" "save_interval sp = save_interval s"
  proof (cases rule: process_token_id_cases [of env tid s])
    case (failed evs)
    with p have "\<not> ok" "sp = s\<lparr>trace := trace s @ evs\<rparr>" by simp_all
    with failed(2) that [of evs] show ?thesis by auto
  next
    case (stored evs t bs)
    with p have "ok" "sp = s\<lparr>token_index :=
                    AList.update (str_of_int tid) \<lparr>character = t, bytes = bs\<rparr> (token_index s),
                  trace := trace s @ evs @ [Stored (str_of_int tid)]\<rparr>"
      by simp_all
    with stored(1,3) that [of evs] show ?thesis by auto
  qed
  let ?sc = "count_result ok sp"
  let ?s' = "?sc\<lparr>token_counter := token_counter ?sc + 1\<rparr>"
  have st: "stats ?s' = stats (count_result ok s)"
    using other(3) by (simp add: count_result_def Let_def)
  have sa: "save_at_interval env tid ?sc = (r, s1)"
    using assms p by (simp add: process_and_count_def)
  show ?thesis
  proof (cases "token_counter ?s' \<ge> save_interval ?s'")
    case False
    with sa have s1: "s1 = ?s'" and r: "\<not> r"
      by (auto simp: save_at_interval_def Let_def split: if_splits)
    from s1 tr other have
      "trace s1 = trace s @ evs @ (if ok then [Stored (str_of_int tid)] else []) @ []"
      "files s1 = files s" "token_counter s1 = Suc (token_counter s)"
      "should_exit s1 = should_exit s" "save_interval s1 = save_interval s"
      "token_index s1 = token_index sp" "stats s1 = stats (count_result ok s)"
      using st by simp_all
    with ix ev r p show ?thesis
      by (intro exI [of _ ok] exI [of _ evs] exI [of _ "[]"]) simp
  next
    case True
    let ?s2 = "save_mappings ?s'"
    from True sa have s1: "s1 = (if r then ?s2 else ?s2\<lparr>token_counter := 0\<rparr>)"
      and rr: "r \<longrightarrow> stats_report_fails env tid"
      by (auto simp: save_at_interval_def Let_def split: if_splits)
    have "token_index s1 = token_index sp" using s1 by simp
    moreover have "trace s1 = trace s @ evs @ (if ok then [Stored (str_of_int tid)] else [])
        @ [save_event (token_index s1)]"
      using s1 tr by (simp add: trace_save_mappings save_event_def)
    moreover have "output_file (files s1) =
                    (case save_result (token_index s1) of
                       Some d \<Rightarrow> Some (Document d) | None \<Rightarrow> output_file (files s))"
      using s1 other(1) by (simp add: save_mappings_files split: option.splits)
    moreover have "if r then token_counter s1 = Suc (token_counter s) \<and> stats_report_fails env tid
                    else token_counter s1 = 0"
      using s1 rr other(2) by simp
    moreover have "stats s1 = stats (count_result ok s)" using s1 st by simp
    moreover have "should_exit s1 = should_exit s" "save_interval s1 = save_interval s"
      using s1 other by simp_all
    ultimately show ?thesis
      using ix ev p
      by (intro exI [of _ ok] exI [of _ evs] exI [of _ "[save_event (token_index s1)]"]) simp
  qed
qed


subsection \<open>What is stored, what is saved\<close>

lemma unsaved_Nil [simp]: "unsaved [] = 0"
  by (simp add: unsaved_def)

lemma unsaved_save [simp]: "unsaved (tr @ [save_event idx]) = 0"
  by (simp add: unsaved_def save_event_def is_save_def split: option.splits)

lemma unsaved_attempts:
  "\<forall>e \<in> set evs. is_attempt_event tid e \<Longrightarrow> unsaved (tr @ evs) = unsaved tr"
proof (induction evs rule: rev_induct)
  case Nil
  then show ?case by simp
next
  case (snoc e evs)
  then have "is_attempt_event tid e" by simp
  then have "\<not> is_save e" "\<not> is_stored e"
    by (auto simp: is_attempt_event_def is_save_def is_stored_def split: event.splits)
  with snoc show ?case
    by (simp add: unsaved_def)
qed

lemma savable_iff:
  "savable idx \<longleftrightarrow>
     (\<forall>item \<in> set idx. py_int (fst item) \<noteq> None \<and> encode_utf8 (character (snd item)) \<noteq> None)"
  by (auto simp: savable_def save_result_def sorted_token_index_def writable_def)

lemma savable_update:
  assumes "savable idx" "encode_utf8 t = Some bs" "\<not> has_key idx (str_of_int tid)"
  shows "savable (AList.update (str_of_int tid) \<lparr>character = t, bytes = bs\<rparr> idx)"
  using assms by (auto simp: savable_iff update_new py_int_str_of_int)

lemma savable_Nil [simp]: "savable []"
  by (simp add: savable_iff)

lemma mset_save_result: "save_result idx = Some d \<Longrightarrow> mset d = mset idx"
  by (simp add: save_result_Some mset_sorted_token_index)

lemma persisted_after_save:
  assumes "savable (token_index s1)"
    and "output_file (files s1) =
           (case save_result (token_index s1) of
              Some d \<Rightarrow> Some (Document d) | None \<Rightarrow> output_file (files s))"
  shows "persisted s1"
proof -
  from assms(1) obtain d where d: "save_result (token_index s1) = Some d"
    by (auto simp: savable_def)
  with assms(2) have "load_existing_mappings (files s1) = d"
    by (simp add: load_existing_mappings_def json_load_def)
  with mset_save_result [OF d] show ?thesis by (simp add: persisted_def)
qed

lemma persisted_save_mappings:
  "savable (token_index s) \<Longrightarrow> persisted (save_mappings s)"
  by (rule persisted_after_save [where s = s]) (simp_all add: save_mappings_files)

lemma has_key_update: "has_key (AList.update k v idx) k' \<longleftrightarrow> k' = k \<or> has_key idx k'"
  by (auto simp: has_key_def dom_update)

lemma flush_inv_loop:
  assumes "flush_inv s"
  shows "flush_inv (snd (sweep_loop env tids s))"
proof (rule sweep_loop_invariant [where I = flush_inv, OF assms])
  fix s' tid
  assume "flush_inv s'"
  then show "flush_inv (deliver env tid (count_skipped s'))" by (simp add: flush_inv_def)
next
  fix s' tid r s1
  assume i: "flush_inv s'" and pc: "process_and_count env tid s' = (r, s1)"
  from process_and_count_detail [OF pc] obtain ok evs sv where
    ix: "if ok then \<exists>t bs. encode_utf8 t = Some bs \<and>
                  token_index s1 =
                    AList.update (str_of_int tid) \<lparr>character = t, bytes = bs\<rparr> (token_index s')
             else token_index s1 = token_index s'"
    and tr: "trace s1 = trace s' @ evs @ (if ok then [Stored (str_of_int tid)] else []) @ sv"
    and ev: "\<forall>e \<in> set evs. is_attempt_event tid e"
    and fl: "(sv = [] \<and> files s1 = files s' \<and> token_counter s1 = Suc (token_counter s') \<and> \<not> r)
            \<or> (sv = [save_event (token_index s1)]
                \<and> output_file (files s1) =
                    (case save_result (token_index s1) of
                       Some d \<Rightarrow> Some (Document d) | None \<Rightarrow> output_file (files s'))
                \<and> (if r then token_counter s1 = Suc (token_counter s') \<and> stats_report_fails env tid
                    else token_counter s1 = 0))"
    by blast
  have u: "0 < unsaved (trace s1) \<longrightarrow> 0 < token_counter s1"
  proof (cases "sv = []")
    case True
    with fl show ?thesis by auto
  next
    case False
    with fl have "sv = [save_event (token_index s1)]" by auto
    with tr have "trace s1 = (trace s' @ evs @ (if ok then [Stored (str_of_int tid)] else []))
        @ [save_event (token_index s1)]" by simp
    then have "unsaved (trace s1) = 0" by (simp only: unsaved_save)
    then show ?thesis by simp
  qed
  have nost: "Stored k \<notin> set evs" "Stored k \<notin> set sv" for k
    using ev fl by (auto simp: is_attempt_event_def save_event_def split: option.splits)
  have k: "\<forall>k. Stored k \<in> set (trace s1) \<longrightarrow> has_key (token_index s1) k"
  proof (intro allI impI)
    fix k assume "Stored k \<in> set (trace s1)"
    with tr nost have "Stored k \<in> set (trace s') \<or> (ok \<and> k = str_of_int tid)"
      by (auto split: if_splits)
    then show "has_key (token_index s1) k"
    proof
      assume "Stored k \<in> set (trace s')"
      with i have "has_key (token_index s') k" by (simp add: flush_inv_def)
      with ix show ?thesis by (auto simp: has_key_update split: if_splits)
    next
      assume "ok \<and> k = str_of_int tid"
      with ix show ?thesis by (auto simp: has_key_update)
    qed
  qed
  from u k have "flush_inv s1" by (simp add: flush_inv_def)
  then show "flush_inv s1 \<and> flush_inv (deliver env tid s1)" by (simp add: flush_inv_def)
qed

lemma disk_inv_loop:
  assumes "disk_inv s"
  shows "disk_inv (snd (sweep_loop env tids s))"
proof (rule sweep_loop_invariant [where I = disk_inv, OF assms])
  fix s' tid
  assume "disk_inv s'"
  then show "disk_inv (deliver env tid (count_skipped s'))"
    by (simp add: disk_inv_def persisted_def)
next
  fix s' tid r s1
  assume i: "disk_inv s'" and nk: "\<not> has_key (token_index s') (str_of_int tid)"
    and pc: "process_and_count env tid s' = (r, s1)"
  from process_and_count_detail [OF pc] obtain ok evs sv where
    ix: "if ok then \<exists>t bs. encode_utf8 t = Some bs \<and>
                  token_index s1 =
                    AList.update (str_of_int tid) \<lparr>character = t, bytes = bs\<rparr> (token_index s')
             else token_index s1 = token_index s'"
    and fl: "(sv = [] \<and> files s1 = files s' \<and> token_counter s1 = Suc (token_counter s') \<and> \<not> r)
            \<or> (sv = [save_event (token_index s1)]
                \<and> output_file (files s1) =
                    (case save_result (token_index s1) of
                       Some d \<Rightarrow> Some (Document d) | None \<Rightarrow> output_file (files s'))
                \<and> (if r then token_counter s1 = Suc (token_counter s') \<and> stats_report_fails env tid
                    else token_counter s1 = 0))"
    by blast
  from i have "savable (token_index s')" by (simp add: disk_inv_def)
  with ix nk have sv1: "savable (token_index s1)"
    by (auto simp: savable_update split: if_splits)
  from fl have "persisted s1 \<or> 0 < token_counter s1"
  proof
    assume "sv = [] \<and> files s1 = files s' \<and> token_counter s1 = Suc (token_counter s') \<and> \<not> r"
    then show ?thesis by simp
  next
    assume "sv = [save_event (token_index s1)]
                \<and> output_file (files s1) =
                    (case save_result (token_index s1) of
                       Some d \<Rightarrow> Some (Document d) | None \<Rightarrow> output_file (files s'))
                \<and> (if r then token_counter s1 = Suc (token_counter s') \<and> stats_report_fails env tid
                    else token_counter s1 = 0)"
    then have "persisted s1" using sv1 by (intro persisted_after_save [where s = s']) simp_all
    then show ?thesis by simp
  qed
  with sv1 have "disk_inv s1" by (simp add: disk_inv_def)
  then show "disk_inv s1 \<and> disk_inv (deliver env tid s1)" by (simp add: disk_inv_def persisted_def)
qed


lemma flush_inv_init: "flush_inv (init_sweeper fs)"
  by (simp add: flush_inv_def)

lemma disk_inv_init: "savable (load_existing_mappings fs) \<Longrightarrow> disk_inv (init_sweeper fs)"
  by (simp add: disk_inv_def persisted_def)

lemma unsaved_final_save:
  assumes "flush_inv s"
  shows "unsaved (trace (final_save s)) = 0"
proof (cases "0 < token_counter s")
  case True
  then show ?thesis
    using unsaved_save [of "trace s" "token_index s"]
    by (simp add: final_save_def trace_save_mappings save_event_def)
next
  case False
  with assms show ?thesis by (auto simp: final_save_def flush_inv_def)
qed

lemma stored_final_save:
  "Stored k \<in> set (trace (final_save s)) \<longleftrightarrow> Stored k \<in> set (trace s)"
  by (auto simp: final_save_def trace_save_mappings split: option.splits)

lemma persisted_final_save:
  assumes "disk_inv s"
  shows "persisted (final_save s)"
  using assms by (auto simp: final_save_def disk_inv_def persisted_save_mappings)

lemma persisted_has_key:
  "persisted s \<Longrightarrow> has_key (load_existing_mappings (files s)) k = has_key (token_index s) k"
  by (auto simp: persisted_def has_key_def dest: mset_eq_setD)

subsection \<open>A cancelled run\<close>

lemma upto_12_20: "[12..20] = [12, 13, 14, 15, 16, 17, 18, 19, 20 :: int]"
  by (simp add: upto.simps)

lemma process_12:
  "process_token_id cancel_env 12 s =
           (True, log_event (Stored (str_of_int 12))
              ((log_event (Request 12 0) s)\<lparr>token_index :=
                 AList.update (str_of_int 12) \<lparr>character = text_of ''bc'', bytes = [98, 99]\<rparr> (token_index s)\<rparr>))"
  by (rule first_attempt_success
      [where lines = "[Blank, Bad_json, Fragment (text_of ''bc''), Fragment (text_of ''zz'')]"])
    (simp_all add: encode_bc cancel_env_def)

lemma cancel_env_simps [simp]:
  "signal cancel_env tid = (tid = 12)"
  "stats_report_fails cancel_env tid = False"
  by (simp_all add: cancel_env_def example_env_def)

lemma cancelled_step:
  "process_and_count cancel_env 12 (init_sweeper no_files) =
     (False,
      (init_sweeper no_files)
        \<lparr>token_index := [(''12'', \<lparr>character = text_of ''bc'', bytes = [98, 99]\<rparr>)],
         trace := [Request 12 0, Stored ''12''],
         stats := \<lparr>total_processed = 1, successful = 1, failed = 0, skipped = 0\<rparr>,
         token_counter := 1\<rparr>)"
  by (simp add: process_and_count_def process_12 str_12 save_at_interval_def SAVE_INTERVAL_def
      Let_def count_result_def log_event_def)

lemma cancelled_loop_eq:
  "sweep_loop cancel_env [12, 13, 14, 15, 16, 17, 18, 19, 20] (init_sweeper no_files) =
     (Cancelled,
      (init_sweeper no_files)
        \<lparr>token_index := [(''12'', \<lparr>character = text_of ''bc'', bytes = [98, 99]\<rparr>)],
         trace := [Request 12 0, Stored ''12''],
         stats := \<lparr>total_processed = 1, successful = 1, failed = 0, skipped = 0\<rparr>,
         token_counter := 1, should_exit := True\<rparr>)"
  by (simp add: has_key_def cancelled_step deliver_def)

lemma cancelled_loop:
  "fst (sweep_loop cancel_env [12..20] (init_sweeper no_files)) = Cancelled"
  "token_index (snd (sweep_loop cancel_env [12..20] (init_sweeper no_files)))
     = [(''12'', \<lparr>character = text_of ''bc'', bytes = [98, 99]\<rparr>)]"
  "token_counter (snd (sweep_loop cancel_env [12..20] (init_sweeper no_files))) = 1"
  "trace (snd (sweep_loop cancel_env [12..20] (init_sweeper no_files))) = [Request 12 0, Stored ''12'']"
  "files (snd (sweep_loop cancel_env [12..20] (init_sweeper no_files))) = no_files"
  unfolding upto_12_20 cancelled_loop_eq by simp_all

lemma py_int_12': "py_int ''12'' = Some 12" by code_simp

subsection \<open>A run over a checkpoint that does not parse\<close>

lemma load_corrupt:
  assumes "output_file fs = Some c" "json_load c = None"
  shows "load_existing_mappings fs = []"
  using assms by (simp add: load_existing_mappings_def)

lemma load_Document:
  "load_existing_mappings fs \<noteq> [] \<Longrightarrow> output_file fs = Some (Document (load_existing_mappings fs))"
  by (auto simp: load_existing_mappings_def json_load_def split: option.splits file_content.splits)

lemma corrupt_run_output:
  "output_file (files (snd (sweep_token_ids example_env 10 10 (init_sweeper corrupt_files))))
     = Some (Document [(''10'', \<lparr>character = text_of ''a'', bytes = [97]\<rparr>)])"
proof -
  have l: "load_existing_mappings corrupt_files = []"
    by (simp add: load_existing_mappings_def corrupt_files_def json_load_def)
  show ?thesis
    by (simp add: sweep_token_ids_def has_key_def l str_10 process_and_count_def process_10
        save_at_interval_def SAVE_INTERVAL_def Let_def final_save_def save_mappings_files
        save_result_one_record)
qed

lemma corrupt_run_stored:
  "Stored ''10'' \<in> set (trace (snd (sweep_token_ids example_env 10 10 (init_sweeper corrupt_files))))"
proof -
  have l: "load_existing_mappings corrupt_files = []"
    by (simp add: load_existing_mappings_def corrupt_files_def json_load_def)
  show ?thesis
    by (simp add: sweep_token_ids_def has_key_def l str_10 process_and_count_def process_10
        save_at_interval_def SAVE_INTERVAL_def Let_def final_save_def trace_save_mappings)
qed

subsection \<open>What the server resolves an id to\<close>






subsection \<open>The index after a sweep, as a map\<close>

















subsection \<open>Requests and skips\<close>

lemma no_request_Nil [simp]: "no_request tid []"
  by (simp add: no_request_def)

lemma no_request_append [simp]:
  "no_request tid (xs @ ys) \<longleftrightarrow> no_request tid xs \<and> no_request tid ys"
  by (auto simp: no_request_def)


lemma no_request_other [simp]:
  "no_request tid [Stored k]" "no_request tid [save_event idx]"
  by (simp_all add: no_request_def save_event_def split: option.splits)






subsection \<open>The trace of a successful call\<close>

text \<open>
  A success is the work of the first attempt that does not fail: the attempts before it
  failed and left a request and a sleep each, the succeeding one leaves its request and
  the store, and nothing follows.
\<close>

lemma attempts_success_trace:
  assumes "attempts env tid as s = (True, s')"
  shows "\<exists>before a after lines t bs.
           as = before @ a # after
         \<and> (\<forall>a' \<in> set before. failing (server env tid a'))
         \<and> server env tid a = Http 200 lines \<and> read_stream lines = Found t bs
         \<and> s' = s\<lparr>token_index :=
                     AList.update (str_of_int tid) \<lparr>character = t, bytes = bs\<rparr> (token_index s),
                   trace := trace s
                     @ concat (map (\<lambda>a'. [Request tid a', Sleep RETRY_DELAY]) before)
                     @ [Request tid a, Stored (str_of_int tid)]\<rparr>"
  using assms
proof (induction as arbitrary: s)
  case Nil
  then show ?case by simp
next
  case (Cons a as)
  show ?case
  proof (cases "failing (server env tid a)")
    case False
    then obtain lines t bs where sv: "server env tid a = Http 200 lines"
      and rs: "read_stream lines = Found t bs"
      by (auto simp: failing_def split: response.splits stream_result.splits)
    with Cons.prems have "s' = s\<lparr>token_index :=
                     AList.update (str_of_int tid) \<lparr>character = t, bytes = bs\<rparr> (token_index s),
                   trace := trace s
                     @ concat (map (\<lambda>a'. [Request tid a', Sleep RETRY_DELAY]) [])
                     @ [Request tid a, Stored (str_of_int tid)]\<rparr>"
      by (simp add: attempt_def log_event_def)
    with sv rs have "a # as = [] @ a # as
         \<and> (\<forall>a' \<in> set []. failing (server env tid a'))
         \<and> server env tid a = Http 200 lines \<and> read_stream lines = Found t bs
         \<and> s' = s\<lparr>token_index :=
                     AList.update (str_of_int tid) \<lparr>character = t, bytes = bs\<rparr> (token_index s),
                   trace := trace s
                     @ concat (map (\<lambda>a'. [Request tid a', Sleep RETRY_DELAY]) [])
                     @ [Request tid a, Stored (str_of_int tid)]\<rparr>"
      by simp
    then show ?thesis
      by (intro exI [of _ "[]"] exI [of _ a] exI [of _ as] exI [of _ lines] exI [of _ t] exI [of _ bs])
  next
    case True
    note f = attempt_failing [OF True, of s]
    let ?s1 = "log_event (Sleep RETRY_DELAY) (log_event (Request tid a) s)"
    have ft: "attempt env tid a s = Fell_through (log_event (Request tid a) s)"
    proof (rule ccontr)
      assume "attempt env tid a s \<noteq> Fell_through (log_event (Request tid a) s)"
      with f have "attempt env tid a s = Returned False (log_event (Request tid a) s)"
        by (auto split: if_splits)
      with Cons.prems show False by simp
    qed
    with Cons.prems have "attempts env tid as ?s1 = (True, s')" by simp
    from Cons.IH [OF this] obtain before a0 after lines t bs where
      as: "as = before @ a0 # after"
      and fb: "\<forall>a' \<in> set before. failing (server env tid a')"
      and sv: "server env tid a0 = Http 200 lines" and rs: "read_stream lines = Found t bs"
      and s': "s' = ?s1\<lparr>token_index :=
                     AList.update (str_of_int tid) \<lparr>character = t, bytes = bs\<rparr> (token_index ?s1),
                   trace := trace ?s1
                     @ concat (map (\<lambda>a'. [Request tid a', Sleep RETRY_DELAY]) before)
                     @ [Request tid a0, Stored (str_of_int tid)]\<rparr>"
      by blast
    from s' have s'': "s' = s\<lparr>token_index :=
                     AList.update (str_of_int tid) \<lparr>character = t, bytes = bs\<rparr> (token_index s),
                   trace := trace s
                     @ concat (map (\<lambda>a'. [Request tid a', Sleep RETRY_DELAY]) (a # before))
                     @ [Request tid a0, Stored (str_of_int tid)]\<rparr>"
      by (simp add: log_event_def)
    from as fb True sv rs s'' have "a # as = (a # before) @ a0 # after
         \<and> (\<forall>a' \<in> set (a # before). failing (server env tid a'))
         \<and> server env tid a0 = Http 200 lines \<and> read_stream lines = Found t bs
         \<and> s' = s\<lparr>token_index :=
                     AList.update (str_of_int tid) \<lparr>character = t, bytes = bs\<rparr> (token_index s),
                   trace := trace s
                     @ concat (map (\<lambda>a'. [Request tid a', Sleep RETRY_DELAY]) (a # before))
                     @ [Request tid a0, Stored (str_of_int tid)]\<rparr>"
      by simp
    then show ?thesis
      by (intro exI [of _ "a # before"] exI [of _ a0] exI [of _ after] exI [of _ lines]
          exI [of _ t] exI [of _ bs])
  qed
qed

lemma range_split:
  assumes "[0..<n] = before @ a # after"
  shows "before = [0..<a] \<and> a < n"
proof -
  have l: "length before = a"
  proof -
    have "[0..<n] ! length before = a" by (simp add: assms)
    moreover have "length before < n"
      using arg_cong [OF assms, of length] by simp
    ultimately show ?thesis by simp
  qed
  have "before = take a [0..<n]" using assms l by simp
  moreover have "a < n" using arg_cong [OF assms, of length] l by simp
  ultimately show ?thesis by simp
qed


lemma read_stream_Found_skipped:
  "read_stream cs = Found t bs \<Longrightarrow>
     \<exists>pre rest. cs = pre @ Fragment t # rest \<and> set pre \<subseteq> {Blank, Done_marker, Bad_json}
       \<and> encode_utf8 t = Some bs"
proof (induction cs rule: read_stream.induct)
  case (6 t' cs)
  then have "t' = t" "encode_utf8 t = Some bs" by (auto split: option.splits)
  then have "Fragment t' # cs = [] @ Fragment t # cs \<and> set [] \<subseteq> {Blank, Done_marker, Bad_json}
      \<and> encode_utf8 t = Some bs"
    by simp
  then show ?case by (intro exI [of _ "[]"] exI [of _ cs])
next
  case (2 cs)
  then obtain pre rest where "cs = pre @ Fragment t # rest" "set pre \<subseteq> {Blank, Done_marker, Bad_json}"
    "encode_utf8 t = Some bs"
    by auto
  then have "Blank # cs = (Blank # pre) @ Fragment t # rest
      \<and> set (Blank # pre) \<subseteq> {Blank, Done_marker, Bad_json} \<and> encode_utf8 t = Some bs"
    by simp
  then show ?case by (intro exI [of _ "Blank # pre"] exI [of _ rest])
next
  case (3 cs)
  then obtain pre rest where "cs = pre @ Fragment t # rest" "set pre \<subseteq> {Blank, Done_marker, Bad_json}"
    "encode_utf8 t = Some bs"
    by auto
  then have "Done_marker # cs = (Done_marker # pre) @ Fragment t # rest
      \<and> set (Done_marker # pre) \<subseteq> {Blank, Done_marker, Bad_json} \<and> encode_utf8 t = Some bs"
    by simp
  then show ?case by (intro exI [of _ "Done_marker # pre"] exI [of _ rest])
next
  case (4 cs)
  then obtain pre rest where "cs = pre @ Fragment t # rest" "set pre \<subseteq> {Blank, Done_marker, Bad_json}"
    "encode_utf8 t = Some bs"
    by auto
  then have "Bad_json # cs = (Bad_json # pre) @ Fragment t # rest
      \<and> set (Bad_json # pre) \<subseteq> {Blank, Done_marker, Bad_json} \<and> encode_utf8 t = Some bs"
    by simp
  then show ?case by (intro exI [of _ "Bad_json # pre"] exI [of _ rest])
qed simp_all

subsection \<open>The console\<close>

text \<open>With a console that works, the definitions with the console are the ones without.\<close>

lemma handler_quiet:
  "quiet con \<Longrightarrow> handler con tid a s =
     Ended (if a = RETRY_ATTEMPTS - 1 then Returned False s else Fell_through s)"
  by (simp add: handler_def quiet_def)

lemma attempt_printing_quiet:
  assumes "quiet con"
  shows "attempt_printing env con tid a s = Ended (attempt env tid a s)"
proof -
  have q: "\<not> con t n site" for t n site using assms by (simp add: quiet_def)
  show ?thesis
  proof (cases "server env tid a")
    case Transport_error
    then show ?thesis
      by (simp add: attempt_printing_def attempt_def handler_quiet [OF assms] q Let_def)
  next
    case (Http status lines)
    then show ?thesis
      by (cases "read_stream lines")
        (simp_all add: attempt_printing_def attempt_def handler_quiet [OF assms] q Let_def)
  qed
qed

lemma attempts_printing_quiet:
  assumes "quiet con"
  shows "attempts_printing env con tid as s =
           (Some (fst (attempts env tid as s)), snd (attempts env tid as s))"
proof (induction as arbitrary: s)
  case Nil
  show ?case by simp
next
  case (Cons a as)
  show ?case
    by (simp add: attempt_printing_quiet [OF assms] Cons.IH split: attempt_end.splits)
qed

lemma process_token_id_printing_quiet:
  "quiet con \<Longrightarrow> process_token_id_printing env con tid s =
     (Some (fst (process_token_id env tid s)), snd (process_token_id env tid s))"
  by (simp add: process_token_id_printing_def process_token_id_def attempts_printing_quiet)

lemma sweep_loop_printing_quiet:
  assumes "quiet con"
  shows "sweep_loop_printing env con tids s = sweep_loop env tids s"
proof (induction tids arbitrary: s)
  case Nil
  show ?case by simp
next
  case (Cons tid tids)
  show ?case
    by (simp add: process_token_id_printing_quiet [OF assms] process_and_count_def Cons.IH
        split: prod.splits bool.splits)
qed

lemma sweep_token_ids_printing_quiet:
  "quiet con \<Longrightarrow> sweep_token_ids_printing env con a b s = sweep_token_ids env a b s"
  by (simp add: sweep_token_ids_printing_def sweep_token_ids_def sweep_loop_printing_quiet)


subsection \<open>The final save when the console works\<close>

text \<open>
  With a console that works, whatever ends the loop (the end of the range, the flag set
  by a signal, or the statistics report raising), a record stored since the last call of
  \<^verbatim>\<open>_save_mappings\<close> makes the \<^verbatim>\<open>finally\<close> block call it, and when the loaded index can
  be saved the checkpoint at the end holds exactly the records of the index in memory.
  The second lemma is a run cancelled after one of nine ids.
\<close>

lemma final_flush:
  fixes env a b fs
  defines "lp \<equiv> snd (sweep_loop env [a..b] (init_sweeper fs))"
    and "sf \<equiv> snd (sweep_token_ids env a b (init_sweeper fs))"
  shows "(0 < unsaved (trace lp) \<longrightarrow> sf = save_mappings lp)
       \<and> unsaved (trace sf) = 0
       \<and> (savable (load_existing_mappings fs) \<longrightarrow>
            persisted sf
          \<and> (\<forall>k. Stored k \<in> set (trace sf) \<longrightarrow> has_key (load_existing_mappings (files sf)) k))"
proof -
  have sf: "sf = final_save lp" by (simp add: sf_def lp_def sweep_token_ids_parts)
  have fi: "flush_inv lp" unfolding lp_def by (rule flush_inv_loop [OF flush_inv_init])
  have 1: "0 < unsaved (trace lp) \<longrightarrow> sf = save_mappings lp"
    using fi by (simp add: sf final_save_def flush_inv_def)
  have 2: "unsaved (trace sf) = 0" unfolding sf by (rule unsaved_final_save [OF fi])
  have 3: "persisted sf \<and> (\<forall>k. Stored k \<in> set (trace sf) \<longrightarrow> has_key (load_existing_mappings (files sf)) k)"
    if sv: "savable (load_existing_mappings fs)"
  proof -
    have di: "disk_inv lp" unfolding lp_def by (rule disk_inv_loop [OF disk_inv_init [OF sv]])
    then have p: "persisted sf" unfolding sf by (rule persisted_final_save)
    have "has_key (load_existing_mappings (files sf)) k" if "Stored k \<in> set (trace sf)" for k
    proof -
      from that have "Stored k \<in> set (trace lp)" by (simp add: sf stored_final_save)
      with fi have "has_key (token_index lp) k" by (simp add: flush_inv_def)
      then have "has_key (token_index sf) k" by (simp add: sf)
      with p show ?thesis by (simp add: persisted_has_key)
    qed
    with p show ?thesis by blast
  qed
  from 1 2 3 show ?thesis by blast
qed

lemma final_flush_cancelled:
  "fst (sweep_token_ids cancel_env 12 20 (init_sweeper no_files)) = Cancelled
   \<and> 0 < unsaved (trace (snd (sweep_loop cancel_env [12..20] (init_sweeper no_files))))
   \<and> snd (sweep_token_ids cancel_env 12 20 (init_sweeper no_files))
       = save_mappings (snd (sweep_loop cancel_env [12..20] (init_sweeper no_files)))
   \<and> unsaved (trace (snd (sweep_token_ids cancel_env 12 20 (init_sweeper no_files)))) = 0
   \<and> savable (load_existing_mappings no_files)
   \<and> persisted (snd (sweep_token_ids cancel_env 12 20 (init_sweeper no_files)))
   \<and> Stored ''12'' \<in> set (trace (snd (sweep_token_ids cancel_env 12 20 (init_sweeper no_files))))
   \<and> has_key (load_existing_mappings (files (snd (sweep_token_ids cancel_env 12 20 (init_sweeper no_files))))) ''12''
   \<and> output_file (files (snd (sweep_token_ids cancel_env 12 20 (init_sweeper no_files))))
       = Some (Document [(''12'', \<lparr>character = text_of ''bc'', bytes = [98, 99]\<rparr>)])"
proof -
  let ?lp = "snd (sweep_loop cancel_env [12..20] (init_sweeper no_files))"
  let ?sf = "snd (sweep_token_ids cancel_env 12 20 (init_sweeper no_files))"
  note t = final_flush [of cancel_env 12 20 no_files]
  have c: "fst (sweep_token_ids cancel_env 12 20 (init_sweeper no_files)) = Cancelled"
    unfolding sweep_token_ids_parts by (rule cancelled_loop)
  have u: "0 < unsaved (trace ?lp)"
    unfolding cancelled_loop by (simp add: unsaved_def is_save_def is_stored_def)
  have sv: "savable (load_existing_mappings no_files)" by simp
  have st: "Stored ''12'' \<in> set (trace ?sf)"
    unfolding sweep_token_ids_parts stored_final_save cancelled_loop by simp
  from t u have 1: "?sf = save_mappings ?lp" by blast
  from t have 2: "unsaved (trace ?sf) = 0" by blast
  from t sv have 3: "persisted ?sf" by blast
  from t sv st have 4: "has_key (load_existing_mappings (files ?sf)) ''12''" by blast
  have sr: "save_result [(''12'', \<lparr>character = text_of ''bc'', bytes = [98, 99]\<rparr>)]
      = Some [(''12'', \<lparr>character = text_of ''bc'', bytes = [98, 99]\<rparr>)]"
    by (simp add: save_result_def sorted_token_index_def py_int_12' writable_def encode_bc)
  have 5: "output_file (files ?sf) = Some (Document [(''12'', \<lparr>character = text_of ''bc'', bytes = [98, 99]\<rparr>)])"
    unfolding 1 save_mappings_files cancelled_loop by (simp add: sr)
  from c u 1 2 sv 3 st 4 5 show ?thesis by (intro conjI)
qed



lemma final_flush_printing:
  assumes "quiet con"
  shows "unsaved (trace (snd (sweep_token_ids_printing env con a b (init_sweeper fs)))) = 0"
  using final_flush [of env a b fs]
  by (simp add: sweep_token_ids_printing_quiet [OF assms])

subsection \<open>A run on a broken standard output\<close>

lemma broken_env_simps [simp]:
  "server broken_env tid a = server example_env tid a"
  "signal broken_env tid = False"
  by (simp_all add: broken_env_def example_env_def)

lemma broken_process_12:
  "process_token_id_printing broken_env broken_console 12 (init_sweeper no_files) =
     (None,
      (init_sweeper no_files)
        \<lparr>token_index := [(''12'', \<lparr>character = text_of ''bc'', bytes = [98, 99]\<rparr>)],
         trace := [Sleep 2, Request 12 1, Stored ''12'', Sleep 2, Request 12 2, Stored ''12'']\<rparr>)"
  unfolding process_token_id_printing_def range_attempts
  by (simp add: attempt_printing_def handler_def broken_console_def RETRY_ATTEMPTS_def
      RETRY_DELAY_def example_env_other encode_bc str_12 log_event_def Let_def)

lemma broken_loop_12:
  "sweep_loop_printing broken_env broken_console [12] (init_sweeper no_files) =
     (Raised,
      (init_sweeper no_files)
        \<lparr>token_index := [(''12'', \<lparr>character = text_of ''bc'', bytes = [98, 99]\<rparr>)],
         trace := [Sleep 2, Request 12 1, Stored ''12'', Sleep 2, Request 12 2, Stored ''12'']\<rparr>)"
  by (simp add: has_key_def broken_process_12)

lemma upto_12_12: "[12..12] = [12 :: int]" by (simp add: upto.simps)


subsection \<open>Runs from a checkpoint\<close>








section \<open>The claims\<close>




text \<open>
  C2. A call of \<^verbatim>\<open>_save_mappings\<close> that succeeds goes through four states of the files:
  as before, the temporary file partly written, the temporary file holding the whole
  sorted index, the temporary file renamed over the checkpoint. In every state the call
  goes through, whether it succeeds or not, the checkpoint file is what it was before
  the call, or, in the last state of a successful call only, the complete document of
  the whole index. So a process killed during the call leaves the old checkpoint or the
  new one.
\<close>

theorem atomic_checkpoint:
  assumes "f \<in> set (save_steps (files s) (token_index s))"
  shows "files (save_mappings s) = last (save_steps (files s) (token_index s))
       \<and> (output_file f = output_file (files s)
          \<or> (\<exists>d. save_result (token_index s) = Some d \<and> mset d = mset (token_index s)
                \<and> f = last (save_steps (files s) (token_index s))
                \<and> output_file f = Some (Document d)))
       \<and> (\<forall>d. save_result (token_index s) = Some d \<longrightarrow>
             save_steps (files s) (token_index s) =
               [files s,
                (files s)\<lparr>temp_file := Some (Partial d)\<rparr>,
                (files s)\<lparr>temp_file := Some (Document d)\<rparr>,
                (files s)\<lparr>temp_file := None, output_file := Some (Document d)\<rparr>])"
proof -
  have a: "files (save_mappings s) = last (save_steps (files s) (token_index s))"
    by (simp add: save_mappings_def)
  have c: "\<forall>d. save_result (token_index s) = Some d \<longrightarrow>
             save_steps (files s) (token_index s) =
               [files s,
                (files s)\<lparr>temp_file := Some (Partial d)\<rparr>,
                (files s)\<lparr>temp_file := Some (Document d)\<rparr>,
                (files s)\<lparr>temp_file := None, output_file := Some (Document d)\<rparr>]"
    by (simp add: save_steps_ok)
  have b: "output_file f = output_file (files s)
          \<or> (\<exists>d. save_result (token_index s) = Some d \<and> mset d = mset (token_index s)
                \<and> f = last (save_steps (files s) (token_index s))
                \<and> output_file f = Some (Document d))"
  proof (cases "save_result (token_index s)")
    case None
    with assms show ?thesis
      by (auto simp: save_result_def save_steps_def split: option.splits if_splits)
  next
    case (Some d)
    then have "mset d = mset (token_index s)"
      by (simp add: save_result_Some mset_sorted_token_index)
    with Some assms show ?thesis
      by (auto simp: save_steps_ok)
  qed
  from a b c show ?thesis by blast
qed

theorem atomic_checkpoint_witness:
  "no_files\<lparr>temp_file := Some (Document [(''10'', \<lparr>character = text_of ''a'', bytes = [97]\<rparr>)])\<rparr>
     \<in> set (save_steps (files one_record) (token_index one_record))
   \<and> files (save_mappings one_record) = last (save_steps (files one_record) (token_index one_record))
   \<and> (output_file (no_files\<lparr>temp_file := Some (Document [(''10'', \<lparr>character = text_of ''a'', bytes = [97]\<rparr>)])\<rparr>)
         = output_file (files one_record)
        \<or> (\<exists>d. save_result (token_index one_record) = Some d \<and> mset d = mset (token_index one_record)
              \<and> no_files\<lparr>temp_file := Some (Document [(''10'', \<lparr>character = text_of ''a'', bytes = [97]\<rparr>)])\<rparr>
                  = last (save_steps (files one_record) (token_index one_record))
              \<and> output_file (no_files\<lparr>temp_file := Some (Document [(''10'', \<lparr>character = text_of ''a'', bytes = [97]\<rparr>)])\<rparr>)
                  = Some (Document d)))"
proof -
  have h: "no_files\<lparr>temp_file := Some (Document [(''10'', \<lparr>character = text_of ''a'', bytes = [97]\<rparr>)])\<rparr>
     \<in> set (save_steps (files one_record) (token_index one_record))"
    by (simp add: save_steps_one_record)
  note t = atomic_checkpoint [OF h]
  from t have c1: "files (save_mappings one_record)
      = last (save_steps (files one_record) (token_index one_record))"
    by (rule conjunct1)
  from t have c2: "output_file (no_files\<lparr>temp_file := Some (Document [(''10'', \<lparr>character = text_of ''a'', bytes = [97]\<rparr>)])\<rparr>)
         = output_file (files one_record)
        \<or> (\<exists>d. save_result (token_index one_record) = Some d \<and> mset d = mset (token_index one_record)
              \<and> no_files\<lparr>temp_file := Some (Document [(''10'', \<lparr>character = text_of ''a'', bytes = [97]\<rparr>)])\<rparr>
                  = last (save_steps (files one_record) (token_index one_record))
              \<and> output_file (no_files\<lparr>temp_file := Some (Document [(''10'', \<lparr>character = text_of ''a'', bytes = [97]\<rparr>)])\<rparr>)
                  = Some (Document d))"
    by (rule conjunct2 [THEN conjunct1])
  from h c1 c2 show ?thesis by (intro conjI)
qed


text \<open>
  C3. When every attempt for an id fails (the request raises, the status is not 200,
  or the stream gives no fragment), \<^verbatim>\<open>_process_token_id\<close> sends exactly three requests,
  sleeps 2 between one request and the next, and returns \<open>False\<close> only after the third;
  the only other event is a last sleep when the third response was a 200 without a
  fragment. The index is unchanged, so the id stays absent; the sweep counts the id as
  failed, not as successful, and goes on with the rest of the range.
\<close>

theorem retry_exhaustion:
  assumes "\<forall>a < RETRY_ATTEMPTS. failing (server env tid a)"
    and "\<not> should_exit s"
    and "\<not> has_key (token_index s) (str_of_int tid)"
    and "\<not> stats_report_fails env tid"
  shows "\<exists>s' tail s2.
           process_token_id env tid s = (False, s')
         \<and> trace s' = trace s @ [Request tid 0, Sleep 2, Request tid 1, Sleep 2, Request tid 2] @ tail
         \<and> (tail = [] \<or> tail = [Sleep 2])
         \<and> token_index s' = token_index s
         \<and> process_and_count env tid s = (False, s2)
         \<and> failed (stats s2) = failed (stats s) + 1
         \<and> successful (stats s2) = successful (stats s)
         \<and> \<not> has_key (token_index s2) (str_of_int tid)
         \<and> sweep_loop env (tid # rest) s = sweep_loop env rest (deliver env tid s2)"
proof -
  define tail where "tail = (if silent (server env tid 2) then [Sleep RETRY_DELAY] else [])"
  define s' where "s' = s\<lparr>trace := trace s @ [Request tid 0, Sleep RETRY_DELAY, Request tid 1,
                      Sleep RETRY_DELAY, Request tid 2] @ tail\<rparr>"
  define s2 where "s2 = snd (save_at_interval env tid (count_result False s'))"
  have p: "process_token_id env tid s = (False, s')"
    using process_failing [OF assms(1), of s] by (simp add: s'_def tail_def)
  have nr: "\<not> fst (save_at_interval env tid (count_result False s'))"
    using save_at_interval_raised assms(4) by blast
  have pc: "process_and_count env tid s = (False, s2)"
    using nr by (simp add: process_and_count_def p s2_def prod_eq_iff)
  have idx: "token_index s' = token_index s" by (simp add: s'_def)
  have "trace s' = trace s @ [Request tid 0, Sleep 2, Request tid 1, Sleep 2, Request tid 2] @ tail"
    by (simp add: s'_def RETRY_DELAY_def)
  moreover have "tail = [] \<or> tail = [Sleep 2]" by (simp add: tail_def RETRY_DELAY_def)
  moreover have "failed (stats s2) = failed (stats s) + 1" by (simp add: s2_def s'_def)
  moreover have "successful (stats s2) = successful (stats s)" by (simp add: s2_def s'_def)
  moreover have "\<not> has_key (token_index s2) (str_of_int tid)"
    using assms(3) by (simp add: s2_def idx)
  moreover have "sweep_loop env (tid # rest) s = sweep_loop env rest (deliver env tid s2)"
    using assms(2,3) by (simp add: pc)
  ultimately show ?thesis using p pc idx by blast
qed


theorem retry_exhaustion_witness:
  "failing (server example_env 11 0) \<and> failing (server example_env 11 1)
   \<and> failing (server example_env 11 2)
   \<and> \<not> should_exit (init_sweeper no_files)
   \<and> \<not> has_key (token_index (init_sweeper no_files)) (str_of_int 11)
   \<and> \<not> stats_report_fails example_env 11
   \<and> (\<exists>s' tail s2.
           process_token_id example_env 11 (init_sweeper no_files) = (False, s')
         \<and> trace s' = trace (init_sweeper no_files) @ [Request 11 0, Sleep 2, Request 11 1, Sleep 2, Request 11 2] @ tail
         \<and> (tail = [] \<or> tail = [Sleep 2])
         \<and> token_index s' = token_index (init_sweeper no_files)
         \<and> process_and_count example_env 11 (init_sweeper no_files) = (False, s2)
         \<and> failed (stats s2) = failed (stats (init_sweeper no_files)) + 1
         \<and> successful (stats s2) = successful (stats (init_sweeper no_files))
         \<and> \<not> has_key (token_index s2) (str_of_int 11)
         \<and> sweep_loop example_env [11, 12] (init_sweeper no_files) = sweep_loop example_env [12] (deliver example_env 11 s2))"
proof -
  have h1: "\<forall>a < RETRY_ATTEMPTS. failing (server example_env 11 a)" by (simp add: failing_def)
  have h2: "\<not> should_exit (init_sweeper no_files)" by simp
  have h3: "\<not> has_key (token_index (init_sweeper no_files)) (str_of_int 11)" by (simp add: has_key_def)
  have h4: "\<not> stats_report_fails example_env 11" by simp
  have h1': "failing (server example_env 11 0) \<and> failing (server example_env 11 1)
      \<and> failing (server example_env 11 2)"
    by (simp add: failing_def)
  from retry_exhaustion [OF h1 h2 h3 h4, of "[12]"] h1' h2 h3 h4 show ?thesis by blast
qed


text \<open>
  C4. Take an index whose keys are as the engine writes them, each the \<^verbatim>\<open>str\<close> of an
  integer and no two the same, in any order. Every document that a sweep from it saves,
  at an interval or at the end, has its entries in strictly ascending order of the
  integers that \<^verbatim>\<open>int\<close> reads from the keys, and its keys are of that form again.
\<close>

theorem sort_invariant:
  fixes env a b s
  defines "sf \<equiv> snd (sweep_token_ids env a b s)"
  assumes "canonical_keys (token_index s)" and "trace s = []"
    and "Save_ok d \<in> set (trace sf)
         \<or> output_file (files sf) = Some (Document d) \<and> output_file (files sf) \<noteq> output_file (files s)"
  shows "ascending d \<and> canonical_keys d"
proof -
  define B where "B d \<longleftrightarrow> ascending d \<and> canonical_keys d" for d
  have B0: "\<forall>d. Save_ok d \<in> set (trace s) \<longrightarrow> B d" using assms(3) by simp
  have upd: "canonical_keys (AList.update (str_of_int tid) \<lparr>character = t, bytes = bs\<rparr> idx)"
    if "canonical_keys idx" "encode_utf8 t = Some bs" "\<not> has_key idx (str_of_int tid)" for idx tid t bs
    using that by (intro canonical_keys_update)
  have sv: "B d'" if c: "canonical_keys idx" and r: "save_result idx = Some d'" for idx d'
  proof -
    from r have so: "sorted_token_index idx = Some d'" by (simp add: save_result_Some)
    from mset_sorted_token_index [OF so] have m: "mset (map fst d') = mset (map fst idx)" by simp
    then have "distinct (map fst d') = distinct (map fst idx)" by (rule mset_eq_imp_distinct_iff)
    moreover from set_sorted_token_index [OF so] have "set d' = set idx" .
    ultimately have "canonical_keys d'" using c by (simp add: canonical_keys_def)
    with canonical_sorted_ascending [OF c so] show ?thesis by (simp add: B_def)
  qed
  from sweep_saves [where A = canonical_keys and B = B and env = env and a = a and b = b,
      OF assms(2) B0 upd sv]
  have all: "\<forall>d. Save_ok d \<in> set (trace sf) \<longrightarrow> B d"
    and out: "output_file (files sf) = output_file (files s)
           \<or> (\<exists>d. output_file (files sf) = Some (Document d) \<and> B d)"
    by (simp_all add: sf_def)
  from assms(4) all out have "B d" by auto
  then show ?thesis by (simp add: B_def)
qed

theorem sort_invariant_witness:
  "canonical_keys (token_index (init_sweeper unsorted_files))
   \<and> trace (init_sweeper unsorted_files) = []
   \<and> (Save_ok [(''9'', \<lparr>character = text_of ''bc'', bytes = [98, 99]\<rparr>),
                (''10'', \<lparr>character = text_of ''a'', bytes = [97]\<rparr>),
                (''12'', \<lparr>character = text_of ''bc'', bytes = [98, 99]\<rparr>)]
         \<in> set (trace (snd (sweep_token_ids example_env 10 10 (init_sweeper unsorted_files))))
       \<or> output_file (files (snd (sweep_token_ids example_env 10 10 (init_sweeper unsorted_files))))
           = Some (Document [(''9'', \<lparr>character = text_of ''bc'', bytes = [98, 99]\<rparr>),
                             (''10'', \<lparr>character = text_of ''a'', bytes = [97]\<rparr>),
                             (''12'', \<lparr>character = text_of ''bc'', bytes = [98, 99]\<rparr>)])
         \<and> output_file (files (snd (sweep_token_ids example_env 10 10 (init_sweeper unsorted_files))))
           \<noteq> output_file (files (init_sweeper unsorted_files)))
   \<and> ascending [(''9'', \<lparr>character = text_of ''bc'', bytes = [98, 99]\<rparr>),
                 (''10'', \<lparr>character = text_of ''a'', bytes = [97]\<rparr>),
                 (''12'', \<lparr>character = text_of ''bc'', bytes = [98, 99]\<rparr>)]
   \<and> canonical_keys [(''9'', \<lparr>character = text_of ''bc'', bytes = [98, 99]\<rparr>),
                      (''10'', \<lparr>character = text_of ''a'', bytes = [97]\<rparr>),
                      (''12'', \<lparr>character = text_of ''bc'', bytes = [98, 99]\<rparr>)]"
proof -
  let ?d = "[(''9'', \<lparr>character = text_of ''bc'', bytes = [98, 99]\<rparr>),
             (''10'', \<lparr>character = text_of ''a'', bytes = [97]\<rparr>),
             (''12'', \<lparr>character = text_of ''bc'', bytes = [98, 99]\<rparr>)]"
  let ?sf = "snd (sweep_token_ids example_env 10 10 (init_sweeper unsorted_files))"
  have h1: "canonical_keys (token_index (init_sweeper unsorted_files))"
    by (simp add: canonical_keys_def py_int_9 py_int_12 str_9 str_12)
  have h2: "trace (init_sweeper unsorted_files) = []" by simp
  have h3: "Save_ok ?d \<in> set (trace ?sf)
       \<or> output_file (files ?sf) = Some (Document ?d)
         \<and> output_file (files ?sf) \<noteq> output_file (files (init_sweeper unsorted_files))"
    by (simp add: unsorted_run_output) (simp add: unsorted_files_def)
  from sort_invariant [OF h1 h2 h3] have "ascending ?d" "canonical_keys ?d" by simp_all
  with h1 h2 h3 show ?thesis by (intro conjI)
qed


text \<open>
  C5 does not hold of the code on the exit by an uncaught error. Take a standard output
  that has broken when the first id is processed, so that every \<^verbatim>\<open>print\<close> from then
  on raises. Sweeping token 12 alone from an empty index, attempt
  0 fails at its progress line, attempts 1 and 2 store the record (line 138) and fail at
  the print of line 144; on the last attempt the handler's own print (line 158) raises,
  and the exception leaves \<^verbatim>\<open>_process_token_id\<close> and the loop before line 87 counts
  the id. The \<^verbatim>\<open>finally\<close> block finds \<^verbatim>\<open>token_counter\<close> at 0 and does not save: the
  run ends with the record in memory, two stores and no save in the trace, and no
  checkpoint file.
\<close>

theorem final_flush_missed:
  "fst (sweep_token_ids_printing broken_env broken_console 12 12 (init_sweeper no_files)) = Raised
   \<and> token_index (snd (sweep_token_ids_printing broken_env broken_console 12 12 (init_sweeper no_files)))
       = [(''12'', \<lparr>character = text_of ''bc'', bytes = [98, 99]\<rparr>)]
   \<and> trace (snd (sweep_token_ids_printing broken_env broken_console 12 12 (init_sweeper no_files)))
       = [Sleep 2, Request 12 1, Stored ''12'', Sleep 2, Request 12 2, Stored ''12'']
   \<and> unsaved (trace (snd (sweep_token_ids_printing broken_env broken_console 12 12 (init_sweeper no_files))))
       = 2
   \<and> token_counter (snd (sweep_token_ids_printing broken_env broken_console 12 12 (init_sweeper no_files)))
       = 0
   \<and> files (snd (sweep_token_ids_printing broken_env broken_console 12 12 (init_sweeper no_files)))
       = no_files
   \<and> output_file no_files = None"
  unfolding sweep_token_ids_printing_def upto_12_12 broken_loop_12
  by (simp add: final_save_def unsaved_def is_save_def is_stored_def no_files_def)

text \<open>
  C6, as stated, fails in its last part: the corrupt file is not kept. With a
  checkpoint that does not parse, the engine starts from the empty index, and a sweep of
  token 10 alone ends with the checkpoint replaced by the new one-record document.
\<close>

theorem corrupt_checkpoint_counterexample:
  "output_file corrupt_files = Some (Garbage ''{ 10: oops'')
   \<and> json_load (Garbage ''{ 10: oops'') = None
   \<and> token_index (init_sweeper corrupt_files) = []
   \<and> output_file (files (snd (sweep_token_ids example_env 10 10 (init_sweeper corrupt_files))))
       = Some (Document [(''10'', \<lparr>character = text_of ''a'', bytes = [97]\<rparr>)])
   \<and> output_file (files (snd (sweep_token_ids example_env 10 10 (init_sweeper corrupt_files))))
       \<noteq> output_file corrupt_files"
  using corrupt_run_output
  by (simp add: corrupt_files_def json_load_def load_existing_mappings_def)


text \<open>
  C6, amended. When the checkpoint file exists and does not parse, \<^verbatim>\<open>__init__\<close> gives
  the empty index and leaves the files as they are. After a sweep the checkpoint is
  still that file or a complete document; as soon as the run stored one record it is a
  document holding that record, and the unparsed content is gone.
\<close>

theorem corrupt_checkpoint:
  fixes env a b fs
  defines "sf \<equiv> snd (sweep_token_ids env a b (init_sweeper fs))"
  assumes "output_file fs = Some c" and "json_load c = None"
  shows "token_index (init_sweeper fs) = [] \<and> files (init_sweeper fs) = fs
       \<and> (output_file (files sf) = Some c \<or> (\<exists>d. output_file (files sf) = Some (Document d)))
       \<and> (\<forall>k. Stored k \<in> set (trace sf) \<longrightarrow>
             (\<exists>d. output_file (files sf) = Some (Document d) \<and> has_key d k))"
proof -
  let ?lp = "snd (sweep_loop env [a..b] (init_sweeper fs))"
  have l: "load_existing_mappings fs = []" by (rule load_corrupt [OF assms(2,3)])
  have sf: "sf = final_save ?lp" by (simp add: sf_def sweep_token_ids_parts)
  have 1: "token_index (init_sweeper fs) = [] \<and> files (init_sweeper fs) = fs" by (simp add: l)
  have "output_file (files sf) = output_file (files (init_sweeper fs))
           \<or> (\<exists>d. output_file (files sf) = Some (Document d) \<and> True)"
    using sweep_saves [where A = "\<lambda>_. True" and B = "\<lambda>_. True" and s = "init_sweeper fs"
        and env = env and a = a and b = b]
    by (simp add: sf_def)
  then have 2: "output_file (files sf) = Some c \<or> (\<exists>d. output_file (files sf) = Some (Document d))"
    using assms(2) by simp
  have fi: "flush_inv ?lp" by (rule flush_inv_loop [OF flush_inv_init])
  have "disk_inv ?lp" by (rule disk_inv_loop [OF disk_inv_init]) (simp add: l)
  then have p: "persisted sf" unfolding sf by (rule persisted_final_save)
  have 3: "\<exists>d. output_file (files sf) = Some (Document d) \<and> has_key d k"
    if "Stored k \<in> set (trace sf)" for k
  proof -
    from that have "Stored k \<in> set (trace ?lp)" by (simp add: sf stored_final_save)
    with fi have "has_key (token_index ?lp) k" by (simp add: flush_inv_def)
    then have "has_key (token_index sf) k" by (simp add: sf)
    with p have hk: "has_key (load_existing_mappings (files sf)) k" by (simp add: persisted_has_key)
    then have "load_existing_mappings (files sf) \<noteq> []" by (auto simp: has_key_def)
    from load_Document [OF this] hk show ?thesis by blast
  qed
  from 1 2 3 show ?thesis by blast
qed

theorem corrupt_checkpoint_witness:
  "output_file corrupt_files = Some (Garbage ''{ 10: oops'')
   \<and> json_load (Garbage ''{ 10: oops'') = None
   \<and> token_index (init_sweeper corrupt_files) = [] \<and> files (init_sweeper corrupt_files) = corrupt_files
   \<and> Stored ''10'' \<in> set (trace (snd (sweep_token_ids example_env 10 10 (init_sweeper corrupt_files))))
   \<and> (\<exists>d. output_file (files (snd (sweep_token_ids example_env 10 10 (init_sweeper corrupt_files))))
            = Some (Document d) \<and> has_key d ''10'')"
proof -
  have h1: "output_file corrupt_files = Some (Garbage ''{ 10: oops'')" by (simp add: corrupt_files_def)
  have h2: "json_load (Garbage ''{ 10: oops'') = None" by (simp add: json_load_def)
  note t = corrupt_checkpoint [OF h1 h2, of example_env 10 10]
  from t have c1: "token_index (init_sweeper corrupt_files) = []"
    and c2: "files (init_sweeper corrupt_files) = corrupt_files" by blast+
  from t corrupt_run_stored have c3: "\<exists>d. output_file (files (snd (sweep_token_ids example_env 10 10 (init_sweeper corrupt_files))))
            = Some (Document d) \<and> has_key d ''10''" by blast
  from h1 h2 c1 c2 corrupt_run_stored c3 show ?thesis by (intro conjI)
qed

text \<open>
  C7. Take a checkpoint whose records each hold the UTF-8 bytes of their text, as the
  empty one has and as every record has that lines 137 to 141 build. Every document
  that a sweep from it saves, and the document in the checkpoint file when the sweep
  has ended, holds every loaded record and has in each of its records, the loaded and
  re-written ones included, the UTF-8 bytes of the record's text.
\<close>

theorem byte_consistency:
  fixes env a b fs
  defines "sf \<equiv> snd (sweep_token_ids env a b (init_sweeper fs))"
  assumes "\<forall>item \<in> set (load_existing_mappings fs). byte_consistent (snd item)"
    and "Save_ok d \<in> set (trace sf) \<or> output_file (files sf) = Some (Document d)"
  shows "set (load_existing_mappings fs) \<subseteq> set d
       \<and> (\<forall>item \<in> set d. byte_consistent (snd item))"
proof -
  let ?L = "load_existing_mappings fs"
  define A where "A idx \<longleftrightarrow> set ?L \<subseteq> set idx
       \<and> (\<forall>item \<in> set idx. byte_consistent (snd item))" for idx :: token_index
  have A0: "A (token_index (init_sweeper fs))" using assms(2) by (simp add: A_def)
  have B0: "\<forall>d. Save_ok d \<in> set (trace (init_sweeper fs)) \<longrightarrow> A d" by simp
  have upd: "A (AList.update (str_of_int tid) \<lparr>character = t, bytes = bs\<rparr> idx)"
    if "A idx" "encode_utf8 t = Some bs" "\<not> has_key idx (str_of_int tid)" for idx tid t bs
    using that by (auto simp: A_def update_new byte_consistent_def)
  have sv: "A d'" if "A idx" "save_result idx = Some d'" for idx d'
    using that set_save_result [OF that(2)] by (simp add: A_def)
  from sweep_saves [where A = A and B = A and env = env and a = a and b = b, OF A0 B0 upd sv]
  have all: "\<forall>d. Save_ok d \<in> set (trace sf) \<longrightarrow> A d"
    and out: "output_file (files sf) = output_file fs
           \<or> (\<exists>d. output_file (files sf) = Some (Document d) \<and> A d)"
    by (simp_all add: sf_def)
  have "A d"
  proof (cases "Save_ok d \<in> set (trace sf)")
    case True
    with all show ?thesis by simp
  next
    case False
    with assms(3) have o: "output_file (files sf) = Some (Document d)" by simp
    from out show ?thesis
    proof
      assume "output_file (files sf) = output_file fs"
      with o have "?L = d" by (simp add: load_existing_mappings_def json_load_def)
      with assms(2) show ?thesis by (auto simp: A_def)
    next
      assume "\<exists>d. output_file (files sf) = Some (Document d) \<and> A d"
      with o show ?thesis by auto
    qed
  qed
  then show ?thesis by (simp add: A_def)
qed

theorem byte_consistency_witness:
  "byte_consistent (snd (''12'', \<lparr>character = text_of ''bc'', bytes = [98, 99]\<rparr>))
   \<and> byte_consistent (snd (''9'', \<lparr>character = text_of ''bc'', bytes = [98, 99]\<rparr>))
   \<and> (Save_ok [(''9'', \<lparr>character = text_of ''bc'', bytes = [98, 99]\<rparr>),
                (''10'', \<lparr>character = text_of ''a'', bytes = [97]\<rparr>),
                (''12'', \<lparr>character = text_of ''bc'', bytes = [98, 99]\<rparr>)]
         \<in> set (trace (snd (sweep_token_ids example_env 10 10 (init_sweeper unsorted_files))))
       \<or> output_file (files (snd (sweep_token_ids example_env 10 10 (init_sweeper unsorted_files))))
           = Some (Document [(''9'', \<lparr>character = text_of ''bc'', bytes = [98, 99]\<rparr>),
                             (''10'', \<lparr>character = text_of ''a'', bytes = [97]\<rparr>),
                             (''12'', \<lparr>character = text_of ''bc'', bytes = [98, 99]\<rparr>)]))
   \<and> set (load_existing_mappings unsorted_files)
        \<subseteq> set [(''9'', \<lparr>character = text_of ''bc'', bytes = [98, 99]\<rparr>),
                (''10'', \<lparr>character = text_of ''a'', bytes = [97]\<rparr>),
                (''12'', \<lparr>character = text_of ''bc'', bytes = [98, 99]\<rparr>)]
   \<and> byte_consistent (snd (''10'', \<lparr>character = text_of ''a'', bytes = [97]\<rparr>))"
proof -
  let ?d = "[(''9'', \<lparr>character = text_of ''bc'', bytes = [98, 99]\<rparr>),
             (''10'', \<lparr>character = text_of ''a'', bytes = [97]\<rparr>),
             (''12'', \<lparr>character = text_of ''bc'', bytes = [98, 99]\<rparr>)]"
  let ?sf = "snd (sweep_token_ids example_env 10 10 (init_sweeper unsorted_files))"
  have l12: "byte_consistent (snd (''12'', \<lparr>character = text_of ''bc'', bytes = [98, 99]\<rparr>))"
    and l9: "byte_consistent (snd (''9'', \<lparr>character = text_of ''bc'', bytes = [98, 99]\<rparr>))"
    by (simp_all add: byte_consistent_def encode_bc)
  then have h1: "\<forall>item \<in> set (load_existing_mappings unsorted_files). byte_consistent (snd item)"
    by simp
  have h2: "Save_ok ?d \<in> set (trace ?sf) \<or> output_file (files ?sf) = Some (Document ?d)"
    by (simp add: unsorted_run_output)
  note t = byte_consistency [OF h1 h2]
  from t have c1: "set (load_existing_mappings unsorted_files) \<subseteq> set ?d" by (rule conjunct1)
  from t have "\<forall>item \<in> set ?d. byte_consistent (snd item)" by (rule conjunct2)
  then have c2: "byte_consistent (snd (''10'', \<lparr>character = text_of ''a'', bytes = [97]\<rparr>))"
    by (rule bspec) simp
  from l12 l9 h2 c1 c2 show ?thesis by (intro conjI)
qed

text \<open>
  C8. When \<^verbatim>\<open>_process_token_id\<close> succeeds, it does so at the first attempt that does not
  fail: every earlier attempt failed, and the response of that attempt has status 200
  and a first fragment, before which the stream has only empty lines, end markers and
  lines that are not JSON. The record stored under the id holds the text of that
  fragment and its UTF-8 bytes, and nothing else of the state changes but the trace,
  which gains a request and a sleep for each failed attempt, then the request of the
  successful attempt and the store: after the store no line is read, no request is
  sent and nothing is stored again. What the server sends after the first fragment of
  a response has no effect: against any server whose responses for the id are the same
  up to the first fragment of each, the call returns the same result and the same state.
\<close>

theorem first_fragment_only:
  assumes "process_token_id env tid s = (True, s')"
  shows "\<exists>a pre t rest bs.
            a < RETRY_ATTEMPTS
          \<and> (\<forall>a' < a. failing (server env tid a'))
          \<and> server env tid a = Http 200 (pre @ Fragment t # rest)
          \<and> set pre \<subseteq> {Blank, Done_marker, Bad_json}
          \<and> encode_utf8 t = Some bs
          \<and> s' = s\<lparr>token_index :=
                      AList.update (str_of_int tid) \<lparr>character = t, bytes = bs\<rparr> (token_index s),
                    trace := trace s
                      @ concat (map (\<lambda>a'. [Request tid a', Sleep 2]) [0..<a])
                      @ [Request tid a, Stored (str_of_int tid)]\<rparr>
          \<and> (\<forall>env'. (\<forall>a. cut_response (server env' tid a) = cut_response (server env tid a))
                 \<longrightarrow> process_token_id env' tid s = (True, s'))"
proof -
  from assms have "attempts env tid [0..<RETRY_ATTEMPTS] s = (True, s')"
    by (simp add: process_token_id_def)
  from attempts_success_trace [OF this] obtain before a after lines t bs where
    sp: "[0..<RETRY_ATTEMPTS] = before @ a # after"
    and fb: "\<forall>a' \<in> set before. failing (server env tid a')"
    and sv: "server env tid a = Http 200 lines" and rs: "read_stream lines = Found t bs"
    and s': "s' = s\<lparr>token_index :=
                     AList.update (str_of_int tid) \<lparr>character = t, bytes = bs\<rparr> (token_index s),
                   trace := trace s
                     @ concat (map (\<lambda>a'. [Request tid a', Sleep RETRY_DELAY]) before)
                     @ [Request tid a, Stored (str_of_int tid)]\<rparr>"
    by blast
  from range_split [OF sp] have b: "before = [0..<a]" and a: "a < RETRY_ATTEMPTS" by simp_all
  from fb b have f: "\<forall>a' < a. failing (server env tid a')" by simp
  from read_stream_Found_skipped [OF rs] obtain pre rest where
    l: "lines = pre @ Fragment t # rest" and p: "set pre \<subseteq> {Blank, Done_marker, Bad_json}"
    and e: "encode_utf8 t = Some bs"
    by blast
  have c: "\<forall>env'. (\<forall>a. cut_response (server env' tid a) = cut_response (server env tid a))
                 \<longrightarrow> process_token_id env' tid s = (True, s')"
  proof (intro allI impI)
    fix env' :: env
    assume "\<forall>a. cut_response (server env' tid a) = cut_response (server env tid a)"
    then have "attempts env' tid [0..<RETRY_ATTEMPTS] s = attempts env tid [0..<RETRY_ATTEMPTS] s"
      by (rule attempts_server_cong)
    with assms show "process_token_id env' tid s = (True, s')" by (simp add: process_token_id_def)
  qed
  from s' b have s'': "s' = s\<lparr>token_index :=
                      AList.update (str_of_int tid) \<lparr>character = t, bytes = bs\<rparr> (token_index s),
                    trace := trace s
                      @ concat (map (\<lambda>a'. [Request tid a', Sleep 2]) [0..<a])
                      @ [Request tid a, Stored (str_of_int tid)]\<rparr>"
    by (simp add: RETRY_DELAY_def)
  from a f sv l p e s'' c have "a < RETRY_ATTEMPTS
          \<and> (\<forall>a' < a. failing (server env tid a'))
          \<and> server env tid a = Http 200 (pre @ Fragment t # rest)
          \<and> set pre \<subseteq> {Blank, Done_marker, Bad_json}
          \<and> encode_utf8 t = Some bs
          \<and> s' = s\<lparr>token_index :=
                      AList.update (str_of_int tid) \<lparr>character = t, bytes = bs\<rparr> (token_index s),
                    trace := trace s
                      @ concat (map (\<lambda>a'. [Request tid a', Sleep 2]) [0..<a])
                      @ [Request tid a, Stored (str_of_int tid)]\<rparr>
          \<and> (\<forall>env'. (\<forall>a. cut_response (server env' tid a) = cut_response (server env tid a))
                 \<longrightarrow> process_token_id env' tid s = (True, s'))"
    by simp
  then show ?thesis
    by (intro exI [of _ a] exI [of _ pre] exI [of _ t] exI [of _ rest] exI [of _ bs])
qed

theorem first_fragment_only_witness:
  "process_token_id example_env 12 (init_sweeper no_files)
     = (True, snd (process_token_id example_env 12 (init_sweeper no_files)))
   \<and> (\<exists>a pre t rest bs.
            a < RETRY_ATTEMPTS
          \<and> (\<forall>a' < a. failing (server example_env 12 a'))
          \<and> server example_env 12 a = Http 200 (pre @ Fragment t # rest)
          \<and> set pre \<subseteq> {Blank, Done_marker, Bad_json}
          \<and> encode_utf8 t = Some bs
          \<and> snd (process_token_id example_env 12 (init_sweeper no_files)) =
              (init_sweeper no_files)\<lparr>token_index :=
                      AList.update (str_of_int 12) \<lparr>character = t, bytes = bs\<rparr>
                        (token_index (init_sweeper no_files)),
                    trace := trace (init_sweeper no_files)
                      @ concat (map (\<lambda>a'. [Request 12 a', Sleep 2]) [0..<a])
                      @ [Request 12 a, Stored (str_of_int 12)]\<rparr>
          \<and> (\<forall>env'. (\<forall>a. cut_response (server env' 12 a) = cut_response (server example_env 12 a))
                 \<longrightarrow> process_token_id env' 12 (init_sweeper no_files)
                      = (True, snd (process_token_id example_env 12 (init_sweeper no_files)))))
   \<and> trace (snd (process_token_id example_env 12 (init_sweeper no_files)))
       = [Request 12 0, Stored ''12'']
   \<and> token_index (snd (process_token_id example_env 12 (init_sweeper no_files)))
       = [(''12'', \<lparr>character = text_of ''bc'', bytes = [98, 99]\<rparr>)]"
proof -
  have p: "process_token_id example_env 12 (init_sweeper no_files) =
      (True, log_event (Stored (str_of_int 12))
              ((log_event (Request 12 0) (init_sweeper no_files))\<lparr>token_index :=
                 AList.update (str_of_int 12) \<lparr>character = text_of ''bc'', bytes = [98, 99]\<rparr>
                   (token_index (init_sweeper no_files))\<rparr>))"
    by (rule first_attempt_success [OF example_env_other read_example_other]) simp_all
  then have h: "process_token_id example_env 12 (init_sweeper no_files)
     = (True, snd (process_token_id example_env 12 (init_sweeper no_files)))"
    by simp
  have tr: "trace (snd (process_token_id example_env 12 (init_sweeper no_files)))
       = [Request 12 0, Stored ''12'']"
    by (simp add: p str_12)
  have ix: "token_index (snd (process_token_id example_env 12 (init_sweeper no_files)))
       = [(''12'', \<lparr>character = text_of ''bc'', bytes = [98, 99]\<rparr>)]"
    by (simp add: p str_12)
  from first_fragment_only [OF h] h tr ix show ?thesis by (intro conjI)
qed

text \<open>
  C9. Sweeping 10 to 12 from an empty index, against a server whose first response for
  10 has the first fragment \<open>a\<close>, whose three responses for 11 time out and whose first
  response for 12 has the first fragment \<open>bc\<close>, runs to completion and ends with the
  index \<open>{10: (a, [97]), 12: (bc, [98, 99])}\<close> and the statistics
  successful 2, failed 1, skipped 0, total processed 3.
\<close>

theorem sweep_example:
  assumes "server env 10 0 = Http 200 (pre10 @ Fragment (text_of ''a'') # more10)"
    and "set pre10 \<subseteq> {Blank, Done_marker, Bad_json}"
    and "\<forall>a < RETRY_ATTEMPTS. server env 11 a = Transport_error"
    and "server env 12 0 = Http 200 (pre12 @ Fragment (text_of ''bc'') # more12)"
    and "set pre12 \<subseteq> {Blank, Done_marker, Bad_json}"
    and "\<not> signal env 10" and "\<not> signal env 11"
    and "load_existing_mappings fs = []"
  shows "\<exists>s. sweep_token_ids env 10 12 (init_sweeper fs) = (Completed, s)
         \<and> token_index s =
              [(''10'', \<lparr>character = text_of ''a'', bytes = [97]\<rparr>),
               (''12'', \<lparr>character = text_of ''bc'', bytes = [98, 99]\<rparr>)]
         \<and> stats s = \<lparr>total_processed = 3, successful = 2, failed = 1, skipped = 0\<rparr>"
proof -
  have r10: "read_stream (pre10 @ Fragment (text_of ''a'') # more10) = Found (text_of ''a'') [97]"
    using read_stream_skip [OF assms(2)] by (simp add: encode_a)
  have r12: "read_stream (pre12 @ Fragment (text_of ''bc'') # more12) = Found (text_of ''bc'') [98, 99]"
    using read_stream_skip [OF assms(5)] by (simp add: encode_bc)
  have f11: "\<forall>a < RETRY_ATTEMPTS. failing (server env 11 a)"
    using assms(3) by (simp add: failing_def)
  have s11: "\<not> silent (server env 11 2)"
    using assms(3) by (simp add: silent_def RETRY_ATTEMPTS_def)
  note p10 = first_attempt_success [OF assms(1) r10]
  note p11 = process_failing [OF f11]
  note p12 = first_attempt_success [OF assms(4) r12]
  show ?thesis
    using assms(6,7,8) s11
    by (simp add: sweep_token_ids_def upto_10_12 has_key_def str_10 str_11 str_12
        process_and_count_def p10 p11 p12 save_at_interval_def count_result_def
        SAVE_INTERVAL_def Let_def deliver_def log_event_def final_save_def save_mappings_def)
qed

theorem sweep_example_witness:
  "server example_env 10 0 = Http 200 ([] @ Fragment (text_of ''a'') # [])
   \<and> set [] \<subseteq> {Blank, Done_marker, Bad_json}
   \<and> server example_env 11 0 = Transport_error \<and> server example_env 11 1 = Transport_error
   \<and> server example_env 11 2 = Transport_error
   \<and> server example_env 12 0 =
       Http 200 ([Blank, Bad_json] @ Fragment (text_of ''bc'') # [Fragment (text_of ''zz'')])
   \<and> set [Blank, Bad_json] \<subseteq> {Blank, Done_marker, Bad_json}
   \<and> \<not> signal example_env 10 \<and> \<not> signal example_env 11
   \<and> load_existing_mappings no_files = []
   \<and> (\<exists>s. sweep_token_ids example_env 10 12 (init_sweeper no_files) = (Completed, s)
         \<and> token_index s =
              [(''10'', \<lparr>character = text_of ''a'', bytes = [97]\<rparr>),
               (''12'', \<lparr>character = text_of ''bc'', bytes = [98, 99]\<rparr>)]
         \<and> stats s = \<lparr>total_processed = 3, successful = 2, failed = 1, skipped = 0\<rparr>)"
proof -
  have h1: "server example_env 10 0 = Http 200 ([] @ Fragment (text_of ''a'') # [])" by simp
  have h2: "set [] \<subseteq> {Blank, Done_marker, Bad_json}" by simp
  have h3: "\<forall>a < RETRY_ATTEMPTS. server example_env 11 a = Transport_error" by simp
  have h4: "server example_env 12 0 =
       Http 200 ([Blank, Bad_json] @ Fragment (text_of ''bc'') # [Fragment (text_of ''zz'')])" by simp
  have h5: "set [Blank, Bad_json] \<subseteq> {Blank, Done_marker, Bad_json}" by simp
  have h6: "\<not> signal example_env 10" "\<not> signal example_env 11" by simp_all
  have h7: "load_existing_mappings no_files = []"
    by (simp add: load_existing_mappings_def no_files_def)
  have h3': "server example_env 11 0 = Transport_error \<and> server example_env 11 1 = Transport_error
   \<and> server example_env 11 2 = Transport_error" by simp
  from sweep_example [OF h1 h2 h3 h4 h5 h6 h7] h1 h2 h3' h4 h5 h6 h7
  show ?thesis by (intro conjI) (assumption | simp)+
qed


text \<open>
  C10. When the first line of the first response that parses carries the empty text (the
  lines before it are empty, the end marker or not JSON), \<^verbatim>\<open>_process_token_id\<close>
  returns \<open>True\<close> and the index maps the id to the record with empty text and no
  bytes; the sweep counts the id as successful and not as failed.
\<close>

theorem empty_fragment_is_success:
  assumes "server env tid 0 = Http 200 (pre @ Fragment [] # rest)"
    and "set pre \<subseteq> {Blank, Done_marker, Bad_json}"
  shows "\<exists>s'. process_token_id env tid s = (True, s')
         \<and> map_of (token_index s') (str_of_int tid) = Some \<lparr>character = [], bytes = []\<rparr>
         \<and> map_of (token_index (snd (process_and_count env tid s))) (str_of_int tid)
             = Some \<lparr>character = [], bytes = []\<rparr>
         \<and> successful (stats (snd (process_and_count env tid s))) = successful (stats s) + 1
         \<and> failed (stats (snd (process_and_count env tid s))) = failed (stats s)"
proof -
  have r: "read_stream (pre @ Fragment [] # rest) = Found [] []"
    using read_stream_skip [OF assms(2)] by simp
  define s' where "s' = log_event (Stored (str_of_int tid))
              ((log_event (Request tid 0) s)\<lparr>token_index :=
                 AList.update (str_of_int tid) \<lparr>character = [], bytes = []\<rparr> (token_index s)\<rparr>)"
  have p: "process_token_id env tid s = (True, s')"
    unfolding s'_def by (rule first_attempt_success [OF assms(1) r])
  have i: "map_of (token_index s') (str_of_int tid) = Some \<lparr>character = [], bytes = []\<rparr>"
    by (simp add: s'_def map_of_update_same)
  have st: "stats s' = stats s" by (simp add: s'_def)
  show ?thesis
    using p i process_and_count_success [OF p] st by auto
qed

theorem empty_fragment_is_success_witness:
  "server example_env 13 0 = Http 200 ([Done_marker] @ Fragment [] # [Fragment (text_of ''zz'')])
   \<and> set [Done_marker] \<subseteq> {Blank, Done_marker, Bad_json}
   \<and> (\<exists>s'. process_token_id example_env 13 (init_sweeper no_files) = (True, s')
         \<and> map_of (token_index s') (str_of_int 13) = Some \<lparr>character = [], bytes = []\<rparr>
         \<and> map_of (token_index (snd (process_and_count example_env 13 (init_sweeper no_files))))
              (str_of_int 13) = Some \<lparr>character = [], bytes = []\<rparr>
         \<and> successful (stats (snd (process_and_count example_env 13 (init_sweeper no_files))))
             = successful (stats (init_sweeper no_files)) + 1
         \<and> failed (stats (snd (process_and_count example_env 13 (init_sweeper no_files))))
             = failed (stats (init_sweeper no_files)))"
proof -
  have h1: "server example_env 13 0 = Http 200 ([Done_marker] @ Fragment [] # [Fragment (text_of ''zz'')])"
    by simp
  have h2: "set [Done_marker] \<subseteq> {Blank, Done_marker, Bad_json}" by simp
  from empty_fragment_is_success [OF h1 h2, of "init_sweeper no_files"] h1 h2
  show ?thesis by blast
qed



end
